theory Spec2Isabelle
  imports Main
begin

section \<open>Bytes and strings\<close>

text \<open>
  A Go \<^verbatim>\<open>string\<close> and a Go \<^verbatim>\<open>[]byte\<close> are sequences of 8-bit bytes; both are modelled
  as \<^typ>\<open>char list\<close> (an Isabelle \<^typ>\<open>char\<close> is one byte). \<open>u8\<close> reads a byte as a
  number, \<open>byte\<close> is Go's conversion \<^verbatim>\<open>byte(v)\<close>, which keeps the low eight bits.
\<close>

definition u8 :: "char \<Rightarrow> nat" where
  "u8 c = of_char c"

definition byte :: "nat \<Rightarrow> char" where
  "byte n = char_of n"

section \<open>Standard-library functions called by the importer\<close>

text \<open>
  The importer is one Go file in two revisions: \<^verbatim>\<open>src/securitypizza_etl.go\<close> (identifier-only
  rows, re-encoded with \<^verbatim>\<open>encoding/ascii85\<close>) and \<^verbatim>\<open>src/src/securitypizza_etl.go\<close> (count
  rows). Both call Go's standard library, which is not part of the repository; the functions
  below follow the library's documented behaviour on the arguments the importer passes.
\<close>

subsection \<open>strings.SplitN, strings.ToLower, strings.Join\<close>

text \<open>
  \<^verbatim>\<open>strings.SplitN(s, sep, n)\<close> for a one-byte separator and \<open>n \<ge> 0\<close>: at most \<open>n\<close>
  substrings, the last one being the unsplit remainder; \<open>n = 0\<close> gives no substrings.
\<close>

fun SplitN :: "string \<Rightarrow> char \<Rightarrow> nat \<Rightarrow> string list" where
  "SplitN s sep 0 = []"
| "SplitN s sep (Suc 0) = [s]"
| "SplitN s sep (Suc (Suc n)) =
     (if sep \<in> set s
      then takeWhile (\<lambda>c. c \<noteq> sep) s # SplitN (tl (dropWhile (\<lambda>c. c \<noteq> sep) s)) sep (Suc n)
      else [s])"

text \<open>
  \<^verbatim>\<open>strings.ToLower\<close>: on a string of ASCII bytes only, every \<^verbatim>\<open>'A'..'Z'\<close> is replaced by
  its lower-case letter. A string with a byte \<open>\<ge> 0x80\<close> goes through
  \<^verbatim>\<open>strings.Map(unicode.ToLower, s)\<close>, whose Unicode tables are outside the repository: that
  mapping is the parameter \<open>mapLower\<close>.
\<close>

definition lowerASCII :: "char \<Rightarrow> char" where
  "lowerASCII c = (if 65 \<le> u8 c \<and> u8 c \<le> 90 then byte (u8 c + 32) else c)"

definition ToLower :: "(string \<Rightarrow> string) \<Rightarrow> string \<Rightarrow> string" where
  "ToLower mapLower s =
     (if list_all (\<lambda>c. u8 c < 128) s then map lowerASCII s else mapLower s)"

fun Join :: "string list \<Rightarrow> string \<Rightarrow> string" where
  "Join [] sep = []"
| "Join [x] sep = x"
| "Join (x # y # ys) sep = x @ sep @ Join (y # ys) sep"

subsection \<open>strconv.Atoi and the \<^verbatim>\<open>%d\<close> verb\<close>

text \<open>
  \<^verbatim>\<open>strconv.Atoi\<close> accepts an optional sign followed by one or more decimal digits whose
  value fits Go's \<^verbatim>\<open>int\<close> (64 bits on the platforms the importer targets); everything else
  is an error. The caller only tests \<^verbatim>\<open>err != nil\<close>, so the error is \<open>None\<close>.
\<close>

definition isDigit :: "char \<Rightarrow> bool" where
  "isDigit c = (48 \<le> u8 c \<and> u8 c \<le> 57)"

definition Atoi :: "string \<Rightarrow> int option" where
  "Atoi s =
     (let neg = (s \<noteq> [] \<and> hd s = CHR ''-'');
          ds = (if s \<noteq> [] \<and> (hd s = CHR ''-'' \<or> hd s = CHR ''+'') then tl s else s);
          n = foldl (\<lambda>n c. n * 10 + (u8 c - 48)) 0 ds
      in if ds = [] \<or> \<not> list_all isDigit ds then None
         else if neg then (if 2 ^ 63 < n then None else Some (- int n))
         else (if 2 ^ 63 \<le> n then None else Some (int n)))"

text \<open>\<^verbatim>\<open>fmt.Sprintf("%d", n)\<close> for \<open>n \<ge> 0\<close>.\<close>

fun itoa :: "nat \<Rightarrow> string" where
  "itoa n = (if n < 10 then [byte (48 + n)] else itoa (n div 10) @ [byte (48 + n mod 10)])"

declare itoa.simps [simp del]

subsection \<open>encoding/hex\<close>

definition fromHexChar :: "char \<Rightarrow> nat option" where
  "fromHexChar c =
     (if 48 \<le> u8 c \<and> u8 c \<le> 57 then Some (u8 c - 48)
      else if 97 \<le> u8 c \<and> u8 c \<le> 102 then Some (u8 c - 97 + 10)
      else if 65 \<le> u8 c \<and> u8 c \<le> 70 then Some (u8 c - 65 + 10)
      else None)"

datatype hex_error = InvalidByteError char | ErrLength

text \<open>
  \<^verbatim>\<open>hex.DecodeString\<close>: two hex digits give one byte \<^verbatim>\<open>(a << 4) | b\<close>; the first byte
  outside the hex alphabet is reported, an odd length otherwise.
\<close>

fun hex_DecodeString :: "string \<Rightarrow> hex_error + char list" where
  "hex_DecodeString (p # q # rest) =
     (case fromHexChar p of
        None \<Rightarrow> Inl (InvalidByteError p)
      | Some a \<Rightarrow>
         (case fromHexChar q of
            None \<Rightarrow> Inl (InvalidByteError q)
          | Some b \<Rightarrow>
             (case hex_DecodeString rest of
                Inl e \<Rightarrow> Inl e
              | Inr bs \<Rightarrow> Inr (byte (a * 16 + b) # bs))))"
| "hex_DecodeString [p] =
     (case fromHexChar p of
        None \<Rightarrow> Inl (InvalidByteError p)
      | Some a \<Rightarrow> Inl ErrLength)"
| "hex_DecodeString [] = Inr []"

subsection \<open>encoding/ascii85\<close>

definition MaxEncodedLen :: "nat \<Rightarrow> nat" where
  "MaxEncodedLen n = (n + 3) div 4 * 5"

text \<open>
  \<^verbatim>\<open>ascii85.Encode\<close> packs up to four source bytes, big-endian, into a \<^verbatim>\<open>uint32\<close>; the
  shifted bytes occupy disjoint bit fields, so their bitwise OR is their sum, always below
  \<open>2 ^ 32\<close>. A full group whose value is zero is written as the single byte \<^verbatim>\<open>'z'\<close>;
  any other group is written as five base-85 digits starting at \<^verbatim>\<open>'!'\<close>, of which a final
  group of \<open>k < 4\<close> bytes keeps the first \<open>k + 1\<close>. The function returns the bytes
  written; the importer's destination buffer has \<open>MaxEncodedLen\<close> bytes.
\<close>

definition pack :: "char list \<Rightarrow> nat" where
  "pack src =
     (if 3 < length src then u8 (src ! 3) else 0)
     + (if 2 < length src then u8 (src ! 2) * 2 ^ 8 else 0)
     + (if 1 < length src then u8 (src ! 1) * 2 ^ 16 else 0)
     + (if 0 < length src then u8 (src ! 0) * 2 ^ 24 else 0)"

definition digits85 :: "nat \<Rightarrow> char list" where
  "digits85 v =
     (let d4 = v mod 85; v3 = v div 85;
          d3 = v3 mod 85; v2 = v3 div 85;
          d2 = v2 mod 85; v1 = v2 div 85;
          d1 = v1 mod 85; v0 = v1 div 85;
          d0 = v0 mod 85
      in map (\<lambda>d. byte (33 + d)) [d0, d1, d2, d3, d4])"

function ascii85_Encode :: "char list \<Rightarrow> char list" where
  "ascii85_Encode src =
     (if src = [] then []
      else if pack src = 0 \<and> 4 \<le> length src then CHR ''z'' # ascii85_Encode (drop 4 src)
      else if length src < 4 then take (5 - (4 - length src)) (digits85 (pack src))
      else digits85 (pack src) @ ascii85_Encode (drop 4 src))"
  by pat_completeness auto
termination
  by (relation "measure length") auto

declare ascii85_Encode.simps [simp del]

text \<open>
  \<^verbatim>\<open>ascii85.Decode(dst, src, flush)\<close>, the inverse the library ships. \<open>dstLen\<close> is
  \<^verbatim>\<open>len(dst)\<close>: the loop returns early, without error, once fewer than four bytes of
  \<^verbatim>\<open>dst\<close> are free. The accumulator is a \<^verbatim>\<open>uint32\<close>, so every update is taken modulo
  \<open>2 ^ 32\<close>. The result is the bytes written and the number of source bytes consumed.
\<close>

datatype CorruptInputError = CorruptInputError nat

definition put4 :: "nat \<Rightarrow> char list" where
  "put4 v = [byte (v div 2 ^ 24), byte (v div 2 ^ 16), byte (v div 2 ^ 8), byte v]"

fun pad84 :: "nat \<Rightarrow> nat \<Rightarrow> nat" where
  "pad84 0 v = v"
| "pad84 (Suc k) v = pad84 k ((v * 85 + 84) mod 2 ^ 32)"

fun flush_bytes :: "nat \<Rightarrow> nat \<Rightarrow> char list" where
  "flush_bytes 0 v = []"
| "flush_bytes (Suc k) v = byte (v div 2 ^ 24) # flush_bytes k ((v * 2 ^ 8) mod 2 ^ 32)"

fun decode_loop ::
  "nat \<Rightarrow> bool \<Rightarrow> nat \<Rightarrow> nat \<Rightarrow> nat \<Rightarrow> char list \<Rightarrow> nat \<Rightarrow> char list
     \<Rightarrow> CorruptInputError + (char list \<times> nat)" where
  "decode_loop dstLen flush v nb i dst nsrc [] =
     (if flush then
        (if 0 < nb then
           (if nb = 1 then Inl (CorruptInputError i)
            else Inr (dst @ flush_bytes (nb - 1) (pad84 (5 - nb) v), i))
         else Inr (dst, i))
      else Inr (dst, nsrc))"
| "decode_loop dstLen flush v nb i dst nsrc (b # src) =
     (if dstLen - length dst < 4 then Inr (dst, nsrc)
      else if u8 b \<le> 32 then decode_loop dstLen flush v nb (i + 1) dst nsrc src
      else if b = CHR ''z'' \<and> nb = 0 then
        decode_loop dstLen flush 0 0 (i + 1) (dst @ put4 0) (i + 1) src
      else if 33 \<le> u8 b \<and> u8 b \<le> 117 then
        (let v' = (v * 85 + (u8 b - 33)) mod 2 ^ 32 in
         if nb + 1 = 5
         then decode_loop dstLen flush 0 0 (i + 1) (dst @ put4 v') (i + 1) src
         else decode_loop dstLen flush v' (nb + 1) (i + 1) dst nsrc src)
      else Inl (CorruptInputError i))"

definition ascii85_Decode ::
  "nat \<Rightarrow> char list \<Rightarrow> bool \<Rightarrow> CorruptInputError + (char list \<times> nat)" where
  "ascii85_Decode dstLen src flush = decode_loop dstLen flush 0 0 0 [] 0 src"

subsection \<open>unicode/utf8\<close>

text \<open>
  \<^verbatim>\<open>utf8.ValidString\<close>. \<open>first\<close> is the library's table of lead bytes \<open>\<ge> 0x80\<close>: the
  length of the sequence and the range accepted for its second byte; later bytes must lie
  in \<open>0x80..0xBF\<close>.
\<close>

definition first :: "nat \<Rightarrow> (nat \<times> nat \<times> nat) option" where
  "first b =
     (if 194 \<le> b \<and> b \<le> 223 then Some (2, 128, 191)
      else if b = 224 then Some (3, 160, 191)
      else if 225 \<le> b \<and> b \<le> 236 then Some (3, 128, 191)
      else if b = 237 then Some (3, 128, 159)
      else if 238 \<le> b \<and> b \<le> 239 then Some (3, 128, 191)
      else if b = 240 then Some (4, 144, 191)
      else if 241 \<le> b \<and> b \<le> 243 then Some (4, 128, 191)
      else if b = 244 then Some (4, 128, 143)
      else None)"

function ValidString :: "string \<Rightarrow> bool" where
  "ValidString [] = True"
| "ValidString (c # s) =
     (if u8 c < 128 then ValidString s
      else case first (u8 c) of
        None \<Rightarrow> False
      | Some (sz, lo, hi) \<Rightarrow>
          if length (c # s) < sz then False
          else if u8 (s ! 0) < lo \<or> hi < u8 (s ! 0) then False
          else if sz = 2 then ValidString (drop 1 s)
          else if u8 (s ! 1) < 128 \<or> 191 < u8 (s ! 1) then False
          else if sz = 3 then ValidString (drop 2 s)
          else if u8 (s ! 2) < 128 \<or> 191 < u8 (s ! 2) then False
          else ValidString (drop 3 s))"
  by pat_completeness auto
termination
  by (relation "measure length") auto

section \<open>The importer's environment\<close>

text \<open>
  Everything the importer reaches outside its own code is a field of \<open>env\<close>:
  \<^item> \<open>time_Parse layout value\<close> is \<^verbatim>\<open>time.Parse\<close>, \<open>None\<close> when it returns an error;
  \<^item> \<open>pgxpool_Connect\<close> tells whether the connection pool can be opened;
  \<^item> \<open>pool_Exec history call\<close> tells whether \<^verbatim>\<open>dbPool.Exec\<close> returns an error for
    \<open>call\<close> (a statement and its arguments) after the statements in \<open>history\<close> were
    executed on the pool, which covers every deterministic store;
  \<^item> \<open>os_Open name\<close> is \<open>None\<close> when the file cannot be opened, otherwise the lines
    \<^verbatim>\<open>bufio.Scanner\<close> delivers and whether \<^verbatim>\<open>s.Err()\<close> is non-nil once it stops;
  \<^item> \<open>unicode_ToLower\<close> is the non-ASCII branch of \<^verbatim>\<open>strings.ToLower\<close>.
\<close>

datatype Time = Date int nat nat

datatype arg = ArgString string | ArgInt int | ArgTime Time

type_synonym call = "string \<times> arg list"

record env =
  time_Parse :: "string \<Rightarrow> string \<Rightarrow> Time option"
  pgxpool_Connect :: "string \<Rightarrow> bool"
  pool_Exec :: "call list \<Rightarrow> call \<Rightarrow> bool"
  os_Open :: "string \<Rightarrow> (string list \<times> bool) option"
  unicode_ToLower :: "string \<Rightarrow> string"

text \<open>
  The effects of a run are two traces: the statements sent to the store, in order, and
  the format strings handed to \<^verbatim>\<open>log.Printf\<close>. The local variables of \<^verbatim>\<open>hibpEtl\<close> extend
  them. \<^verbatim>\<open>count\<close> and \<^verbatim>\<open>errors\<close> are Go \<^verbatim>\<open>int\<close>s that only ever grow from zero, one step
  per input line at most; they are natural numbers here.
\<close>

record world =
  calls :: "call list"
  logs :: "string list"

record 'row locals = world +
  count :: nat
  errors :: nat
  rowData :: "'row list"

text \<open>Every \<^verbatim>\<open>log.Fatal\<close> of the source ends the run with one of these values.\<close>

datatype fatal =
  FatalMissingDate | FatalParseDate | FatalConnect | FatalSchema | FatalOpen | FatalScan
  | FatalNotAString

definition Exec :: "env \<Rightarrow> string \<Rightarrow> arg list \<Rightarrow> 'a world_scheme \<Rightarrow> bool \<times> 'a world_scheme" where
  "Exec e query args w =
     (pool_Exec e (calls w) (query, args), w\<lparr>calls := calls w @ [(query, args)]\<rparr>)"

definition Printf :: "string \<Rightarrow> 'a world_scheme \<Rightarrow> 'a world_scheme" where
  "Printf format w = w\<lparr>logs := logs w @ [format]\<rparr>"

section \<open>Constants and helpers shared by both revisions\<close>

definition DATE_FORMAT :: string where
  "DATE_FORMAT = ''January 2 2006''"

definition IMPORT_TABLE_SCHEMA :: string where
  "IMPORT_TABLE_SCHEMA = ''CREATE TABLE IF NOT EXISTS imports (import_id serial PRIMARY KEY, name VARCHAR(200) NOT NULL, state VARCHAR(50) NOT NULL, import_date DATE NOT NULL)''"

definition stringToDate :: "env \<Rightarrow> string \<Rightarrow> 'a world_scheme \<Rightarrow> fatal + (Time \<times> 'a world_scheme)" where
  "stringToDate e date w =
     (if date = [] then Inl FatalMissingDate
      else case time_Parse e DATE_FORMAT date of
        None \<Rightarrow> Inl FatalParseDate
      | Some t \<Rightarrow> Inr (t, Printf ''File import time %s'' w))"

definition dbSchemaCreate :: "env \<Rightarrow> string \<Rightarrow> 'a world_scheme \<Rightarrow> fatal + 'a world_scheme" where
  "dbSchemaCreate e idempotentSchema w =
     (case Exec e idempotentSchema [] w of
        (err, w1) \<Rightarrow> if err then Inl FatalSchema else Inr w1)"

definition IMPORT_QUERY :: string where
  "IMPORT_QUERY = ''INSERT INTO imports (name, state, import_date) VALUES ($1, $2, $3)''"

definition dbLogImportData ::
  "env \<Rightarrow> string \<Rightarrow> string \<Rightarrow> Time \<Rightarrow> 'a world_scheme \<Rightarrow> 'a world_scheme" where
  "dbLogImportData e name state time w =
     (case Exec e IMPORT_QUERY [ArgString name, ArgString state, ArgTime time] w of
        (err, w1) \<Rightarrow> if err then Printf ''Error writing to imports: %v'' w1 else w1)"

section \<open>Identifier-only revision: \<^verbatim>\<open>src/securitypizza_etl.go\<close>\<close>

definition BATCH_SIZE_ascii85 :: nat where
  "BATCH_SIZE_ascii85 = 60000"

definition HIBP_TABLE_SCHEMA_ascii85 :: string where
  "HIBP_TABLE_SCHEMA_ascii85 = ''CREATE TABLE IF NOT EXISTS hibp (hibp_id CHAR(25) NOT NULL PRIMARY KEY, password VARCHAR(150))''"

definition hibp_query_ascii85 :: "string list \<Rightarrow> string" where
  "hibp_query_ascii85 rows =
     ''INSERT INTO hibp (hibp_id) VALUES ''
     @ Join (map (\<lambda>i. ''($'' @ itoa (i + 1) @ '')'') [0..<length rows]) '',''
     @ '' ON CONFLICT (hibp_id) DO NOTHING''"

definition hibpProcessRowDataBatch_ascii85 ::
  "env \<Rightarrow> string list \<Rightarrow> 'a world_scheme \<Rightarrow> nat \<times> 'a world_scheme" where
  "hibpProcessRowDataBatch_ascii85 e rows w =
     (case Exec e (hibp_query_ascii85 rows) (map ArgString rows) w of
        (err, w1) \<Rightarrow> if err then (1, Printf ''Err: %v on %s: %v'' w1) else (0, w1))"

text \<open>One iteration of the scanner loop, on the line \<open>text\<close>; \<open>B\<close> is \<^verbatim>\<open>BATCH_SIZE\<close>.\<close>

definition hibpEtl_line_ascii85 ::
  "nat \<Rightarrow> env \<Rightarrow> string \<Rightarrow> string locals \<Rightarrow> fatal + string locals" where
  "hibpEtl_line_ascii85 B e text st =
     (let data = SplitN text CHR '':'' 2 in
      if length data \<noteq> 2 then Inr (st\<lparr>errors := errors st + 1\<rparr>)
      else case hex_DecodeString (data ! 0) of
        Inl err \<Rightarrow> Inr (st\<lparr>errors := errors st + 1\<rparr>)
      | Inr hash \<Rightarrow>
         let hibp = ascii85_Encode hash in
         if \<not> ValidString hibp then Inl FatalNotAString
         else
           let st1 = st\<lparr>count := count st + 1, rowData := rowData st @ [hibp]\<rparr> in
           if count st1 mod B = 0 then
             (case hibpProcessRowDataBatch_ascii85 e (rowData st1) (Printf ''processing %d...'' st1) of
                (n, st2) \<Rightarrow> Inr (st2\<lparr>errors := errors st2 + n, rowData := []\<rparr>))
           else Inr st1)"

fun hibpEtl_scan_ascii85 ::
  "nat \<Rightarrow> env \<Rightarrow> string list \<Rightarrow> string locals \<Rightarrow> fatal + string locals" where
  "hibpEtl_scan_ascii85 B e [] st = Inr st"
| "hibpEtl_scan_ascii85 B e (text # rest) st =
     (case hibpEtl_line_ascii85 B e text st of
        Inl f \<Rightarrow> Inl f
      | Inr st1 \<Rightarrow> hibpEtl_scan_ascii85 B e rest st1)"

text \<open>The statements after the loop: the unconditional flush, the state, the ledger.\<close>

definition hibpEtl_finish_ascii85 :: "env \<Rightarrow> Time \<Rightarrow> string locals \<Rightarrow> nat \<times> string locals" where
  "hibpEtl_finish_ascii85 e time st =
     (case hibpProcessRowDataBatch_ascii85 e (rowData st) st of
        (n, st1) \<Rightarrow>
          let st2 = st1\<lparr>errors := errors st1 + n\<rparr>;
              st3 = (if 0 < errors st2 then Printf ''%d Error(s) found'' st2 else st2);
              state = (if 0 < errors st2 then ''error'' else ''done'');
              st4 = dbLogImportData e ''pwned-passwords-sha1'' state time st3
          in (count st4, st4))"

definition hibpEtl_ascii85 ::
  "nat \<Rightarrow> env \<Rightarrow> string \<Rightarrow> string \<Rightarrow> string \<Rightarrow> fatal + (nat \<times> string locals)" where
  "hibpEtl_ascii85 B e connectionString filename date =
     (case stringToDate e date \<lparr>calls = [], logs = [], count = 0, errors = 0, rowData = []\<rparr> of
        Inl f \<Rightarrow> Inl f
      | Inr (time, st0) \<Rightarrow>
          if \<not> pgxpool_Connect e connectionString then Inl FatalConnect
          else
            (case dbSchemaCreate e HIBP_TABLE_SCHEMA_ascii85
                    (Printf ''HIBP Processing file %s for %s'' st0) of
               Inl f \<Rightarrow> Inl f
             | Inr st1 \<Rightarrow>
                 (case dbSchemaCreate e IMPORT_TABLE_SCHEMA st1 of
                    Inl f \<Rightarrow> Inl f
                  | Inr st2 \<Rightarrow>
                      (case os_Open e filename of
                         None \<Rightarrow> Inl FatalOpen
                       | Some (lines, scanErr) \<Rightarrow>
                           (case hibpEtl_scan_ascii85 B e lines st2 of
                              Inl f \<Rightarrow> Inl f
                            | Inr st3 \<Rightarrow>
                                if scanErr then Inl FatalScan
                                else Inr (hibpEtl_finish_ascii85 e time st3))))))"

section \<open>Count revision: \<^verbatim>\<open>src/src/securitypizza_etl.go\<close>\<close>

definition BATCH_SIZE_count :: nat where
  "BATCH_SIZE_count = 10000"

definition HIBP_TABLE_SCHEMA_count :: string where
  "HIBP_TABLE_SCHEMA_count = ''CREATE TABLE IF NOT EXISTS hibp (hibp_id CHAR(40) NOT NULL PRIMARY KEY, password VARCHAR(200), count INT)''"

text \<open>The struct \<^verbatim>\<open>hibpData\<close>: the fields \<^verbatim>\<open>hash\<close> and \<^verbatim>\<open>count\<close>.\<close>

datatype hibpData = HibpData string int

fun hibp_args_count :: "hibpData list \<Rightarrow> arg list" where
  "hibp_args_count [] = []"
| "hibp_args_count (HibpData h c # rows) = ArgString h # ArgInt c # hibp_args_count rows"

definition hibp_query_count :: "hibpData list \<Rightarrow> string" where
  "hibp_query_count rows =
     ''INSERT INTO hibp (hibp_id, count) VALUES ''
     @ Join (map (\<lambda>i. ''($'' @ itoa (i * 2 + 1) @ '', $'' @ itoa (i * 2 + 2) @ '')'')
          [0..<length rows]) '',''
     @ '' ON CONFLICT (hibp_id) DO UPDATE SET count = EXCLUDED.count''"

definition hibpProcessRowDataBatch_count ::
  "env \<Rightarrow> hibpData list \<Rightarrow> 'a world_scheme \<Rightarrow> nat \<times> 'a world_scheme" where
  "hibpProcessRowDataBatch_count e rows w =
     (case Exec e (hibp_query_count rows) (hibp_args_count rows) w of
        (err, w1) \<Rightarrow> if err then (1, Printf ''Err: %v on %s'' w1) else (0, w1))"

definition hibpEtl_line_count ::
  "nat \<Rightarrow> env \<Rightarrow> string \<Rightarrow> hibpData locals \<Rightarrow> hibpData locals" where
  "hibpEtl_line_count B e text st =
     (let data = SplitN text CHR '':'' 2 in
      if length data \<noteq> 2 then st\<lparr>errors := errors st + 1\<rparr>
      else case Atoi (data ! 1) of
        None \<Rightarrow> st\<lparr>errors := errors st + 1\<rparr>
      | Some numCount \<Rightarrow>
         let hash = ToLower (unicode_ToLower e) (data ! 0);
             st1 = st\<lparr>count := count st + 1, rowData := rowData st @ [HibpData hash numCount]\<rparr>
         in
           if count st1 mod B = 0 then
             (case hibpProcessRowDataBatch_count e (rowData st1) (Printf ''processing %d...'' st1) of
                (n, st2) \<Rightarrow> st2\<lparr>errors := errors st2 + n, rowData := []\<rparr>)
           else st1)"

fun hibpEtl_scan_count ::
  "nat \<Rightarrow> env \<Rightarrow> string list \<Rightarrow> hibpData locals \<Rightarrow> hibpData locals" where
  "hibpEtl_scan_count B e [] st = st"
| "hibpEtl_scan_count B e (text # rest) st =
     hibpEtl_scan_count B e rest (hibpEtl_line_count B e text st)"

definition hibpEtl_finish_count :: "env \<Rightarrow> Time \<Rightarrow> hibpData locals \<Rightarrow> nat \<times> hibpData locals" where
  "hibpEtl_finish_count e time st =
     (case hibpProcessRowDataBatch_count e (rowData st) st of
        (n, st1) \<Rightarrow>
          let st2 = st1\<lparr>errors := errors st1 + n\<rparr>;
              st3 = (if 0 < errors st2 then Printf ''%d Error(s) found'' st2 else st2);
              state = (if 0 < errors st2 then ''error'' else ''done'');
              st4 = dbLogImportData e ''pwned-passwords-sha1'' state time st3
          in (count st4, st4))"

definition hibpEtl_count ::
  "nat \<Rightarrow> env \<Rightarrow> string \<Rightarrow> string \<Rightarrow> string \<Rightarrow> fatal + (nat \<times> hibpData locals)" where
  "hibpEtl_count B e connectionString filename date =
     (case stringToDate e date \<lparr>calls = [], logs = [], count = 0, errors = 0, rowData = []\<rparr> of
        Inl f \<Rightarrow> Inl f
      | Inr (time, st0) \<Rightarrow>
          if \<not> pgxpool_Connect e connectionString then Inl FatalConnect
          else
            (case dbSchemaCreate e HIBP_TABLE_SCHEMA_count
                    (Printf ''HIBP Processing file %s for %s'' st0) of
               Inl f \<Rightarrow> Inl f
             | Inr st1 \<Rightarrow>
                 (case dbSchemaCreate e IMPORT_TABLE_SCHEMA st1 of
                    Inl f \<Rightarrow> Inl f
                  | Inr st2 \<Rightarrow>
                      (case os_Open e filename of
                         None \<Rightarrow> Inl FatalOpen
                       | Some (lines, scanErr) \<Rightarrow>
                           let st3 = hibpEtl_scan_count B e lines st2 in
                           if scanErr then Inl FatalScan
                           else Inr (hibpEtl_finish_count e time st3)))))"

section \<open>Notions used to state the claims\<close>

text \<open>
  \<open>zero_groups\<close> counts the aligned four-byte groups of a digest that are all zero,
  \<open>printable\<close> is the range of bytes from \<^verbatim>\<open>'!'\<close> to \<^verbatim>\<open>'z'\<close>.
\<close>

fun zero_groups :: "char list \<Rightarrow> nat" where
  "zero_groups (a # b # c # d # rest) =
     (if u8 a = 0 \<and> u8 b = 0 \<and> u8 c = 0 \<and> u8 d = 0 then 1 else 0) + zero_groups rest"
| "zero_groups src = 0"

definition printable :: "char \<Rightarrow> bool" where
  "printable c = (33 \<le> u8 c \<and> u8 c \<le> 122)"

text \<open>
  The statement one batch becomes: the query text and its arguments, as the two batch
  writers build them.
\<close>

definition batch_ascii85 :: "string list \<Rightarrow> call" where
  "batch_ascii85 rows = (hibp_query_ascii85 rows, map ArgString rows)"

definition batch_count :: "hibpData list \<Rightarrow> call" where
  "batch_count rows = (hibp_query_count rows, hibp_args_count rows)"

text \<open>
  The two parts of a line that holds the separator: what precedes its first occurrence,
  and what follows it.
\<close>

definition key_field :: "string \<Rightarrow> string" where
  "key_field text = takeWhile (\<lambda>c. c \<noteq> CHR '':'') text"

definition value_field :: "string \<Rightarrow> string" where
  "value_field text = tl (dropWhile (\<lambda>c. c \<noteq> CHR '':'') text)"

text \<open>
  \<open>parse_count\<close> is the row the count revision makes of a line, \<open>None\<close> for a line
  it counts as an error; \<open>rows_count\<close> collects the rows of a list of lines.
\<close>

definition parse_count :: "env \<Rightarrow> string \<Rightarrow> hibpData option" where
  "parse_count e text =
     (if CHR '':'' \<in> set text
      then (case Atoi (value_field text) of
              None \<Rightarrow> None
            | Some n \<Rightarrow> Some (HibpData (ToLower (unicode_ToLower e) (key_field text)) n))
      else None)"

fun rows_count :: "env \<Rightarrow> string list \<Rightarrow> hibpData list" where
  "rows_count e [] = []"
| "rows_count e (l # ls) =
     (case parse_count e l of None \<Rightarrow> rows_count e ls | Some row \<Rightarrow> row # rows_count e ls)"

text \<open>
  \<open>flush_count\<close> and \<open>flush_ascii85\<close> are the body of the \<^verbatim>\<open>if count%BATCH_SIZE == 0\<close>
  statement of the loop: the progress log, the batch write, the error update and the fresh
  buffer.
\<close>

definition flush_count :: "env \<Rightarrow> hibpData locals \<Rightarrow> hibpData locals" where
  "flush_count e st =
     (case hibpProcessRowDataBatch_count e (rowData st) (Printf ''processing %d...'' st) of
        (n, st2) \<Rightarrow> st2\<lparr>errors := errors st2 + n, rowData := []\<rparr>)"

definition flush_ascii85 :: "env \<Rightarrow> string locals \<Rightarrow> string locals" where
  "flush_ascii85 e st =
     (case hibpProcessRowDataBatch_ascii85 e (rowData st) (Printf ''processing %d...'' st) of
        (n, st2) \<Rightarrow> st2\<lparr>errors := errors st2 + n, rowData := []\<rparr>)"

text \<open>
  The ledger statement of a run, the state of the count revision when its loop starts
  (after the two schema statements), the error counter after the final flush, and the
  state string chosen from it.
\<close>

definition ledger_call :: "string \<Rightarrow> Time \<Rightarrow> call" where
  "ledger_call state time =
     (IMPORT_QUERY, [ArgString ''pwned-passwords-sha1'', ArgString state, ArgTime time])"

definition loop_entry_count :: "hibpData locals" where
  "loop_entry_count =
     \<lparr>calls = [(HIBP_TABLE_SCHEMA_count, []), (IMPORT_TABLE_SCHEMA, [])],
      logs = [''File import time %s'', ''HIBP Processing file %s for %s''],
      count = 0, errors = 0, rowData = []\<rparr>"

definition final_errors_count :: "env \<Rightarrow> hibpData locals \<Rightarrow> nat" where
  "final_errors_count e st =
     errors st + (if pool_Exec e (calls st) (batch_count (rowData st)) then 1 else 0)"

definition final_state :: "nat \<Rightarrow> string" where
  "final_state errs = (if 0 < errs then ''error'' else ''done'')"

text \<open>The state of the identifier-only revision when its loop starts.\<close>

definition loop_entry_ascii85 :: "string locals" where
  "loop_entry_ascii85 =
     \<lparr>calls = [(HIBP_TABLE_SCHEMA_ascii85, []), (IMPORT_TABLE_SCHEMA, [])],
      logs = [''File import time %s'', ''HIBP Processing file %s for %s''],
      count = 0, errors = 0, rowData = []\<rparr>"

text \<open>
  \<open>failures e history cs\<close> counts the statements of \<open>cs\<close> that the store rejects when
  they are executed in order after \<open>history\<close>.
\<close>

fun failures :: "env \<Rightarrow> call list \<Rightarrow> call list \<Rightarrow> nat" where
  "failures e history [] = 0"
| "failures e history (c # cs) =
     (if pool_Exec e history c then 1 else 0) + failures e (history @ [c]) cs"

text \<open>
  Two variants of an environment that differ from it on the ledger statement only: one
  whose store rejects it, one whose store accepts it.
\<close>

definition ledger_rejected :: "env \<Rightarrow> env" where
  "ledger_rejected e = e\<lparr>pool_Exec := \<lambda>h c. fst c = IMPORT_QUERY \<or> pool_Exec e h c\<rparr>"

definition ledger_accepted :: "env \<Rightarrow> env" where
  "ledger_accepted e = e\<lparr>pool_Exec := \<lambda>h c. fst c \<noteq> IMPORT_QUERY \<and> pool_Exec e h c\<rparr>"

text \<open>
  A concrete environment for evaluating the model: the date \<^verbatim>\<open>November 19 2020\<close> parses,
  the pool connects, three input files exist, and the store rejects exactly the two
  \<^verbatim>\<open>INSERT\<close> statements whose \<^verbatim>\<open>VALUES\<close> list is empty, which PostgreSQL reports as a
  syntax error.
\<close>

definition sample_env :: env where
  "sample_env =
     \<lparr>time_Parse = (\<lambda>layout v. if layout = DATE_FORMAT \<and> v = ''November 19 2020''
                                then Some (Date 2020 11 19) else None),
      pgxpool_Connect = (\<lambda>c. True),
      pool_Exec = (\<lambda>h c. fst c = hibp_query_count [] \<or> fst c = hibp_query_ascii85 []),
      os_Open = (\<lambda>f. if f = ''empty.txt'' then Some ([], False)
                      else if f = ''five.txt''
                        then Some ([''aa:1'', ''bb:2'', ''cc:3'', ''dd:4'', ''ee:5''], False)
                      else if f = ''mixed.txt''
                        then Some ([''aaaa:5'', ''badline'', ''bbbb:3''], False)
                      else None),
      unicode_ToLower = (\<lambda>s. s)\<rparr>"

text \<open>The same environment with a store that rejects every statement that has arguments.\<close>

definition rejecting_env :: env where
  "rejecting_env = sample_env\<lparr>pool_Exec := \<lambda>h c. snd c \<noteq> []\<rparr>"

section \<open>The ascii85 round trip\<close>

lemma u8_lt: "u8 c < 256"
proof -
  have "u8 c mod 256 = u8 c" unfolding u8_def by simp
  then show ?thesis by (metis mod_less_divisor zero_less_numeral)
qed

lemma u8_byte: "n < 256 \<Longrightarrow> u8 (byte n) = n"
  by (simp add: u8_def byte_def)

lemma byte_u8: "byte (u8 c) = c"
  by (simp add: u8_def byte_def)

lemma u8_z: "u8 CHR ''z'' = 122"
  by (simp add: u8_def)

lemma u8_digit: "u8 (byte (33 + x mod 85)) = 33 + x mod 85"
proof -
  have "x mod 85 < 85" by simp
  then have "33 + x mod 85 < 256" by linarith
  then show ?thesis by (rule u8_byte)
qed

lemma digit_not_z: "byte (33 + x mod 85) \<noteq> CHR ''z''"
proof
  assume "byte (33 + x mod 85) = CHR ''z''"
  then have "u8 (byte (33 + x mod 85)) = 122" by (simp add: u8_z)
  then have "33 + x mod 85 = 122" by (simp add: u8_digit)
  moreover have "x mod 85 < 85" by simp
  ultimately show False by linarith
qed

lemma mod85_le: "x mod 85 \<le> (84::nat)"
proof -
  have "x mod 85 < 85" by simp
  then show ?thesis by linarith
qed

lemma dec_digit:
  assumes "4 \<le> D - length dst" "nb < 4" "v * 85 + x mod 85 = w" "w < 2 ^ 32"
    "nb' = nb + 1" "i' = i + 1"
  shows "decode_loop D fl v nb i dst ns (byte (33 + x mod 85) # rest)
         = decode_loop D fl w nb' i' dst ns rest"
  using assms by (simp add: u8_digit digit_not_z mod85_le Let_def)

lemma dec_digit_last:
  assumes "4 \<le> D - length dst" "v * 85 + x mod 85 = w" "w < 2 ^ 32" "i' = i + 1"
  shows "decode_loop D fl v 4 i dst ns (byte (33 + x mod 85) # rest)
         = decode_loop D fl 0 0 i' (dst @ put4 w) i' rest"
  using assms by (simp add: u8_digit digit_not_z mod85_le Let_def)

lemma div85_chain:
  fixes v :: nat
  assumes "v < 2 ^ 32"
  shows "v div 85 div 85 div 85 div 85 mod 85 = v div 85 div 85 div 85 div 85"
    and "v div 85 div 85 div 85 div 85 * 85 + v div 85 div 85 div 85 mod 85 = v div 85 div 85 div 85"
    and "v div 85 div 85 div 85 * 85 + v div 85 div 85 mod 85 = v div 85 div 85"
    and "v div 85 div 85 * 85 + v div 85 mod 85 = v div 85"
    and "v div 85 * 85 + v mod 85 = v"
proof -
  have "v div 85 div 85 div 85 div 85 < 85"
    using assms by (simp add: div_mult2_eq [symmetric] less_mult_imp_div_less)
  then show "v div 85 div 85 div 85 div 85 mod 85 = v div 85 div 85 div 85 div 85"
    by simp
qed simp_all

lemma div85_le:
  fixes v :: nat
  assumes "v < 2 ^ 32"
  shows "v div 85 < 2 ^ 32" "v div 85 div 85 < 2 ^ 32" "v div 85 div 85 div 85 < 2 ^ 32"
    "v div 85 div 85 div 85 div 85 < 2 ^ 32"
proof -
  have le: "x div 85 \<le> x" for x :: nat by simp
  show "v div 85 < 2 ^ 32" using le [of v] assms by linarith
  then show "v div 85 div 85 < 2 ^ 32" using le [of "v div 85"] by linarith
  then show "v div 85 div 85 div 85 < 2 ^ 32" using le [of "v div 85 div 85"] by linarith
  then show "v div 85 div 85 div 85 div 85 < 2 ^ 32"
    using le [of "v div 85 div 85 div 85"] by linarith
qed

lemma dec_group:
  assumes v: "v < 2 ^ 32" and room: "4 \<le> D - length dst"
  shows "decode_loop D fl 0 0 i dst ns (digits85 v @ rest)
         = decode_loop D fl 0 0 (i + 5) (dst @ put4 v) (i + 5) rest"
proof -
  let ?q4 = "v div 85 div 85 div 85 div 85"
  let ?q3 = "v div 85 div 85 div 85"
  let ?q2 = "v div 85 div 85"
  let ?q1 = "v div 85"
  note c = div85_chain [OF v] and l = div85_le [OF v, simplified]
  have v': "v < 4294967296" using v by simp
  have "decode_loop D fl 0 0 i dst ns (digits85 v @ rest)
        = decode_loop D fl 0 0 i dst ns
            (byte (33 + ?q4 mod 85) # byte (33 + ?q3 mod 85) # byte (33 + ?q2 mod 85)
              # byte (33 + ?q1 mod 85) # byte (33 + v mod 85) # rest)"
    by (simp add: digits85_def Let_def)
  also have "\<dots> = decode_loop D fl ?q4 1 (i + 1) dst ns
            (byte (33 + ?q3 mod 85) # byte (33 + ?q2 mod 85)
              # byte (33 + ?q1 mod 85) # byte (33 + v mod 85) # rest)"
    by (rule dec_digit [OF room]) (simp_all add: c l)
  also have "\<dots> = decode_loop D fl ?q3 2 (i + 2) dst ns
            (byte (33 + ?q2 mod 85) # byte (33 + ?q1 mod 85) # byte (33 + v mod 85) # rest)"
    by (rule dec_digit [OF room]) (simp_all add: c l)
  also have "\<dots> = decode_loop D fl ?q2 3 (i + 3) dst ns
            (byte (33 + ?q1 mod 85) # byte (33 + v mod 85) # rest)"
    by (rule dec_digit [OF room]) (simp_all add: c l)
  also have "\<dots> = decode_loop D fl ?q1 4 (i + 4) dst ns (byte (33 + v mod 85) # rest)"
    by (rule dec_digit [OF room]) (simp_all add: c l)
  also have "\<dots> = decode_loop D fl 0 0 (i + 5) (dst @ put4 v) (i + 5) rest"
    by (rule dec_digit_last [OF room]) (simp_all add: c l v')
  finally show ?thesis .
qed

lemma byte_eqI: "n mod 256 = u8 c \<Longrightarrow> byte n = c"
proof -
  assume "n mod 256 = u8 c"
  then have "byte (n mod 256) = c" by (simp add: byte_u8)
  then show ?thesis by (simp add: byte_def)
qed

lemma byte_step:
  fixes e x :: nat
  assumes "e < 256"
  shows "(e + 256 * x) div 256 = x" "(e + 256 * x) mod 256 = e"
  using assms by simp_all

lemma bytes_of_sum:
  fixes A B C E :: nat
  assumes "A < 256" "B < 256" "C < 256" "E < 256"
  defines "v \<equiv> A * 16777216 + B * 65536 + C * 256 + E"
  shows "v div 16777216 mod 256 = A"
    and "v div 65536 mod 256 = B"
    and "v div 256 mod 256 = C"
    and "v mod 256 = E"
proof -
  have v: "v = E + 256 * (C + 256 * (B + 256 * A))"
    by (simp add: v_def)
  have d1: "v div 256 = C + 256 * (B + 256 * A)"
    unfolding v using assms(4) by (rule byte_step(1))
  have d2: "v div 65536 = B + 256 * A"
  proof -
    have "v div 65536 = v div 256 div 256"
      by (simp add: div_mult2_eq [symmetric])
    also have "\<dots> = B + 256 * A"
      unfolding d1 using assms(3) by (rule byte_step(1))
    finally show ?thesis .
  qed
  have d3: "v div 16777216 = A"
  proof -
    have "v div 16777216 = v div 65536 div 256"
      by (simp add: div_mult2_eq [symmetric])
    also have "\<dots> = A"
      unfolding d2 using assms(2) by simp
    finally show ?thesis .
  qed
  show "v mod 256 = E" unfolding v using assms(4) by (rule byte_step(2))
  show "v div 256 mod 256 = C" unfolding d1 using assms(3) by (rule byte_step(2))
  show "v div 65536 mod 256 = B" unfolding d2 using assms(2) by (rule byte_step(2))
  show "v div 16777216 mod 256 = A" unfolding d3 using assms(1) by simp
qed

lemma pack4: "pack (a # b # c # d # rest) = u8 a * 16777216 + u8 b * 65536 + u8 c * 256 + u8 d"
  by (simp add: pack_def)

lemma pack4_lt: "pack (a # b # c # d # rest) < 2 ^ 32"
  using u8_lt [of a] u8_lt [of b] u8_lt [of c] u8_lt [of d] by (simp add: pack4)

lemma put4_pack: "put4 (pack (a # b # c # d # rest)) = [a, b, c, d]"
  using bytes_of_sum [OF u8_lt [of a] u8_lt [of b] u8_lt [of c] u8_lt [of d]]
  by (simp add: put4_def pack4 byte_eqI)

lemma Encode_Nil: "ascii85_Encode [] = []"
  by (simp add: ascii85_Encode.simps)

lemma Encode_group:
  "ascii85_Encode (a # b # c # d # rest) =
     (if pack (a # b # c # d # rest) = 0 then CHR ''z'' # ascii85_Encode rest
      else digits85 (pack (a # b # c # d # rest)) @ ascii85_Encode rest)"
  by (subst ascii85_Encode.simps) simp

lemma Encode_short:
  "src \<noteq> [] \<Longrightarrow> length src < 4 \<Longrightarrow>
   ascii85_Encode src = take (length src + 1) (digits85 (pack src))"
  by (subst ascii85_Encode.simps) simp

lemma put4_zero: "pack (a # b # c # d # rest) = 0 \<Longrightarrow> put4 0 = [a, b, c, d]"
  using put4_pack [of a b c d rest] by simp

lemma length_digits85: "length (digits85 v) = 5"
  by (simp add: digits85_def Let_def)

lemma dec_full:
  assumes room: "4 \<le> D - length dst"
  shows "decode_loop D fl 0 0 i dst ns (ascii85_Encode (a # b # c # d # rest))
         = decode_loop D fl 0 0
             (i + (length (ascii85_Encode (a # b # c # d # rest)) - length (ascii85_Encode rest)))
             (dst @ [a, b, c, d])
             (i + (length (ascii85_Encode (a # b # c # d # rest)) - length (ascii85_Encode rest)))
             (ascii85_Encode rest)"
proof (cases "pack (a # b # c # d # rest) = 0")
  case True
  then show ?thesis
    using room by (simp add: Encode_group u8_z put4_zero [OF True])
next
  case False
  then show ?thesis
    using dec_group [OF pack4_lt room, where fl = fl and i = i and ns = ns
        and rest = "ascii85_Encode rest"]
    by (simp add: Encode_group put4_pack length_digits85)
qed

lemma pad_window:
  fixes V K :: nat
  assumes "0 < K"
  shows "\<exists>e<K. V div K * K + (K - 1) = V + e"
proof (intro exI conjI)
  have m: "V mod K < K" using assms by simp
  then show "K - 1 - V mod K < K" by linarith
  have "V div K * K + V mod K = V" by simp
  then show "V div K * K + (K - 1) = V + (K - 1 - V mod K)"
    using m by linarith
qed

lemma pad84_1:
  assumes "q * 85 + 84 < 4294967296"
  shows "pad84 (Suc 0) q = q * 85 + 84"
proof -
  have "pad84 (Suc 0) q = (q * 85 + 84) mod 4294967296" by simp
  then show ?thesis using assms by simp
qed

lemma pad84_2:
  assumes "q * 7225 + 7224 < 4294967296"
  shows "pad84 (Suc (Suc 0)) q = q * 7225 + 7224"
proof -
  have b: "q * 85 + 84 < 4294967296" using assms by linarith
  have "pad84 (Suc (Suc 0)) q = pad84 (Suc 0) ((q * 85 + 84) mod 4294967296)" by simp
  also have "\<dots> = pad84 (Suc 0) (q * 85 + 84)" using b by simp
  also have "\<dots> = (q * 85 + 84) * 85 + 84"
    by (rule pad84_1) (use assms in \<open>simp add: algebra_simps\<close>)
  finally show ?thesis by simp
qed

lemma pad84_3:
  assumes "q * 614125 + 614124 < 4294967296"
  shows "pad84 (Suc (Suc (Suc 0))) q = q * 614125 + 614124"
proof -
  have b: "q * 85 + 84 < 4294967296" using assms by linarith
  have "pad84 (Suc (Suc (Suc 0))) q = pad84 (Suc (Suc 0)) ((q * 85 + 84) mod 4294967296)"
    by simp
  also have "\<dots> = pad84 (Suc (Suc 0)) (q * 85 + 84)" using b by simp
  also have "\<dots> = (q * 85 + 84) * 7225 + 7224"
    by (rule pad84_2) (use assms in \<open>simp add: algebra_simps\<close>)
  finally show ?thesis by simp
qed

lemma flush_step:
  assumes "hi < 256" "lo < 2 ^ 24"
  shows "flush_bytes (Suc k) (hi * 2 ^ 24 + lo) = byte hi # flush_bytes k (lo * 256)"
proof -
  have d: "(hi * 2 ^ 24 + lo) div 2 ^ 24 = hi"
    using assms(2) by simp
  have "(hi * 2 ^ 24 + lo) * 2 ^ 8 = lo * 256 + hi * 2 ^ 32"
    by (simp add: algebra_simps)
  moreover have "lo * 256 < 2 ^ 32" using assms(2) by simp
  ultimately have m: "((hi * 2 ^ 24 + lo) * 2 ^ 8) mod 2 ^ 32 = lo * 256"
    by (simp del: power_numeral add: mod_mult_self1)
  show ?thesis
    by (simp only: flush_bytes.simps d m)
qed

lemma dec_end2:
  "decode_loop D True v 2 i dst ns [] = Inr (dst @ flush_bytes (Suc 0) (pad84 (Suc (Suc (Suc 0))) v), i)"
proof -
  have "(2::nat) - 1 = Suc 0" "(5::nat) - 2 = Suc (Suc (Suc 0))" by simp_all
  then show ?thesis by (simp only: decode_loop.simps) simp
qed

lemma dec_end3:
  "decode_loop D True v 3 i dst ns [] = Inr (dst @ flush_bytes (Suc (Suc 0)) (pad84 (Suc (Suc 0)) v), i)"
proof -
  have "(3::nat) - 1 = Suc (Suc 0)" "(5::nat) - 3 = Suc (Suc 0)" by simp_all
  then show ?thesis by (simp only: decode_loop.simps) simp
qed

lemma dec_end4:
  "decode_loop D True v 4 i dst ns [] = Inr (dst @ flush_bytes (Suc (Suc (Suc 0))) (pad84 (Suc 0) v), i)"
proof -
  have "(4::nat) - 1 = Suc (Suc (Suc 0))" "(5::nat) - 4 = Suc 0" by simp_all
  then show ?thesis by (simp only: decode_loop.simps) simp
qed

lemma dec_tail1:
  assumes room: "4 \<le> D - length dst"
  shows "decode_loop D True 0 0 i dst ns (ascii85_Encode [a]) = Inr (dst @ [a], i + 2)"
proof -
  define V where "V = u8 a * 16777216"
  let ?q4 = "V div 85 div 85 div 85 div 85"
  let ?q3 = "V div 85 div 85 div 85"
  have A: "u8 a < 256" by (rule u8_lt)
  have V: "V < 2 ^ 32" using A by (simp add: V_def)
  note c = div85_chain [OF V] and l = div85_le [OF V, simplified]
  have pk: "pack [a] = V" by (simp add: pack_def V_def)
  have enc: "ascii85_Encode [a] = [byte (33 + ?q4 mod 85), byte (33 + ?q3 mod 85)]"
    by (simp add: Encode_short pk digits85_def Let_def)
  have q: "?q3 = V div 614125" by (simp add: div_mult2_eq [symmetric])
  obtain e where e: "e < 614125" "V div 614125 * 614125 + (614125 - 1) = V + e"
    using pad_window [of 614125 V] by auto
  have W: "?q3 * 614125 + 614124 = u8 a * 2 ^ 24 + e"
  proof -
    have "?q3 * 614125 + 614124 = V + e"
      unfolding q using e(2) by simp
    then show ?thesis by (simp add: V_def)
  qed
  have "pad84 (Suc (Suc (Suc 0))) ?q3 = ?q3 * 614125 + 614124"
    by (rule pad84_3) (use W A e(1) in simp)
  then have p: "pad84 (Suc (Suc (Suc 0))) ?q3 = u8 a * 2 ^ 24 + e"
    using W by simp
  have f: "flush_bytes (Suc 0) (u8 a * 2 ^ 24 + e) = [a]"
    using flush_step [OF A, of e 0] e(1) by (simp add: byte_u8)
  have "decode_loop D True 0 0 i dst ns (ascii85_Encode [a])
        = decode_loop D True ?q4 1 (i + 1) dst ns [byte (33 + ?q3 mod 85)]"
    unfolding enc by (rule dec_digit [OF room]) (simp_all add: c l)
  also have "\<dots> = decode_loop D True ?q3 2 (i + 2) dst ns []"
    by (rule dec_digit [OF room]) (simp_all add: c l)
  also have "\<dots> = Inr (dst @ flush_bytes (Suc 0) (pad84 (Suc (Suc (Suc 0))) ?q3), i + 2)"
    by (rule dec_end2)
  also have "\<dots> = Inr (dst @ [a], i + 2)"
    by (simp only: p f)
  finally show ?thesis .
qed

lemma dec_tail2:
  assumes room: "4 \<le> D - length dst"
  shows "decode_loop D True 0 0 i dst ns (ascii85_Encode [a, b]) = Inr (dst @ [a, b], i + 3)"
proof -
  define V where "V = u8 a * 16777216 + u8 b * 65536"
  let ?q4 = "V div 85 div 85 div 85 div 85"
  let ?q3 = "V div 85 div 85 div 85"
  let ?q2 = "V div 85 div 85"
  have A: "u8 a < 256" and B: "u8 b < 256" by (rule u8_lt)+
  have V: "V < 2 ^ 32" using A B by (simp add: V_def)
  note c = div85_chain [OF V] and l = div85_le [OF V, simplified]
  have pk: "pack [a, b] = V" by (simp add: pack_def V_def)
  have enc: "ascii85_Encode [a, b]
             = [byte (33 + ?q4 mod 85), byte (33 + ?q3 mod 85), byte (33 + ?q2 mod 85)]"
    by (simp add: Encode_short pk digits85_def Let_def)
  have q: "?q2 = V div 7225" by (simp add: div_mult2_eq [symmetric])
  obtain e where e: "e < 7225" "V div 7225 * 7225 + (7225 - 1) = V + e"
    using pad_window [of 7225 V] by auto
  have W: "?q2 * 7225 + 7224 = u8 a * 2 ^ 24 + (u8 b * 65536 + e)"
  proof -
    have "?q2 * 7225 + 7224 = V + e"
      unfolding q using e(2) by simp
    then show ?thesis by (simp add: V_def)
  qed
  have "pad84 (Suc (Suc 0)) ?q2 = ?q2 * 7225 + 7224"
    by (rule pad84_2) (use W A B e(1) in simp)
  then have p: "pad84 (Suc (Suc 0)) ?q2 = u8 a * 2 ^ 24 + (u8 b * 65536 + e)"
    using W by simp
  have f1: "flush_bytes (Suc (Suc 0)) (u8 a * 2 ^ 24 + (u8 b * 65536 + e))
            = a # flush_bytes (Suc 0) ((u8 b * 65536 + e) * 256)"
    using flush_step [OF A, of "u8 b * 65536 + e" "Suc 0"] B e(1) by (simp add: byte_u8)
  have "(u8 b * 65536 + e) * 256 = u8 b * 2 ^ 24 + e * 256" by simp
  then have f2: "flush_bytes (Suc 0) ((u8 b * 65536 + e) * 256) = [b]"
    using flush_step [OF B, of "e * 256" 0] e(1) by (simp add: byte_u8)
  have "decode_loop D True 0 0 i dst ns (ascii85_Encode [a, b])
        = decode_loop D True ?q4 1 (i + 1) dst ns
            [byte (33 + ?q3 mod 85), byte (33 + ?q2 mod 85)]"
    unfolding enc by (rule dec_digit [OF room]) (simp_all add: c l)
  also have "\<dots> = decode_loop D True ?q3 2 (i + 2) dst ns [byte (33 + ?q2 mod 85)]"
    by (rule dec_digit [OF room]) (simp_all add: c l)
  also have "\<dots> = decode_loop D True ?q2 3 (i + 3) dst ns []"
    by (rule dec_digit [OF room]) (simp_all add: c l)
  also have "\<dots> = Inr (dst @ flush_bytes (Suc (Suc 0)) (pad84 (Suc (Suc 0)) ?q2), i + 3)"
    by (rule dec_end3)
  also have "\<dots> = Inr (dst @ [a, b], i + 3)"
    by (simp only: p f1 f2)
  finally show ?thesis .
qed

lemma dec_tail3:
  assumes room: "4 \<le> D - length dst"
  shows "decode_loop D True 0 0 i dst ns (ascii85_Encode [a, b, c]) = Inr (dst @ [a, b, c], i + 4)"
proof -
  define V where "V = u8 a * 16777216 + u8 b * 65536 + u8 c * 256"
  let ?q4 = "V div 85 div 85 div 85 div 85"
  let ?q3 = "V div 85 div 85 div 85"
  let ?q2 = "V div 85 div 85"
  let ?q1 = "V div 85"
  have A: "u8 a < 256" and B: "u8 b < 256" and C: "u8 c < 256" by (rule u8_lt)+
  have V: "V < 2 ^ 32" using A B C by (simp add: V_def)
  note c = div85_chain [OF V] and l = div85_le [OF V, simplified]
  have pk: "pack [a, b, c] = V" by (simp add: pack_def V_def)
  have enc: "ascii85_Encode [a, b, c]
             = [byte (33 + ?q4 mod 85), byte (33 + ?q3 mod 85), byte (33 + ?q2 mod 85),
                byte (33 + ?q1 mod 85)]"
    by (simp add: Encode_short pk digits85_def Let_def)
  obtain e where e: "e < 85" "V div 85 * 85 + (85 - 1) = V + e"
    using pad_window [of 85 V] by auto
  have W: "?q1 * 85 + 84 = u8 a * 2 ^ 24 + (u8 b * 65536 + u8 c * 256 + e)"
  proof -
    have "?q1 * 85 + 84 = V + e"
      using e(2) by simp
    then show ?thesis by (simp add: V_def)
  qed
  have "pad84 (Suc 0) ?q1 = ?q1 * 85 + 84"
    by (rule pad84_1) (use W A B C e(1) in simp)
  then have p: "pad84 (Suc 0) ?q1 = u8 a * 2 ^ 24 + (u8 b * 65536 + u8 c * 256 + e)"
    using W by simp
  have f1: "flush_bytes (Suc (Suc (Suc 0))) (u8 a * 2 ^ 24 + (u8 b * 65536 + u8 c * 256 + e))
            = byte (u8 a) # flush_bytes (Suc (Suc 0)) ((u8 b * 65536 + u8 c * 256 + e) * 256)"
    by (rule flush_step [OF A]) (use B C e(1) in simp)
  have eq1: "(u8 b * 65536 + u8 c * 256 + e) * 256 = u8 b * 2 ^ 24 + (u8 c * 65536 + e * 256)"
    by simp
  have f2: "flush_bytes (Suc (Suc 0)) (u8 b * 2 ^ 24 + (u8 c * 65536 + e * 256))
            = byte (u8 b) # flush_bytes (Suc 0) ((u8 c * 65536 + e * 256) * 256)"
    by (rule flush_step [OF B]) (use C e(1) in simp)
  have eq2: "(u8 c * 65536 + e * 256) * 256 = u8 c * 2 ^ 24 + e * 65536"
    by simp
  have f3: "flush_bytes (Suc 0) (u8 c * 2 ^ 24 + e * 65536) = byte (u8 c) # flush_bytes 0 (e * 65536 * 256)"
    by (rule flush_step [OF C]) (use e(1) in simp)
  have "decode_loop D True 0 0 i dst ns (ascii85_Encode [a, b, c])
        = decode_loop D True ?q4 1 (i + 1) dst ns
            [byte (33 + ?q3 mod 85), byte (33 + ?q2 mod 85), byte (33 + ?q1 mod 85)]"
    unfolding enc by (rule dec_digit [OF room]) (simp_all add: c l)
  also have "\<dots> = decode_loop D True ?q3 2 (i + 2) dst ns
            [byte (33 + ?q2 mod 85), byte (33 + ?q1 mod 85)]"
    by (rule dec_digit [OF room]) (simp_all add: c l)
  also have "\<dots> = decode_loop D True ?q2 3 (i + 3) dst ns [byte (33 + ?q1 mod 85)]"
    by (rule dec_digit [OF room]) (simp_all add: c l)
  also have "\<dots> = decode_loop D True ?q1 4 (i + 4) dst ns []"
    by (rule dec_digit [OF room]) (simp_all add: c l)
  also have "\<dots> = Inr (dst @ flush_bytes (Suc (Suc (Suc 0))) (pad84 (Suc 0) ?q1), i + 4)"
    by (rule dec_end4)
  also have "\<dots> = Inr (dst @ [a, b, c], i + 4)"
    by (simp only: p f1 eq1 f2 eq2 f3 byte_u8 flush_bytes.simps(1))
  finally show ?thesis .
qed

lemma list4_induct [case_names Nil One Two Three Group]:
  assumes "P []" "\<And>a. P [a]" "\<And>a b. P [a, b]" "\<And>a b c. P [a, b, c]"
    "\<And>a b c d rest. P rest \<Longrightarrow> P (a # b # c # d # rest)"
  shows "P xs"
  using assms
  apply induction_schema
    apply pat_completeness
   apply lexicographic_order
  done

lemma length_Encode_group:
  "length (ascii85_Encode (a # b # c # d # rest))
   = (if pack (a # b # c # d # rest) = 0 then 1 else 5) + length (ascii85_Encode rest)"
  by (simp add: Encode_group length_digits85)

lemma length_Encode_short:
  "src \<noteq> [] \<Longrightarrow> length src < 4 \<Longrightarrow> length (ascii85_Encode src) = length src + 1"
  by (simp add: Encode_short length_digits85)

lemma roundtrip_loop:
  "4 * ((length bs + 3) div 4) \<le> D - length dst \<Longrightarrow>
   decode_loop D True 0 0 i dst ns (ascii85_Encode bs)
   = Inr (dst @ bs, i + length (ascii85_Encode bs))"
proof (induction bs arbitrary: i dst ns rule: list4_induct)
  case Nil
  show ?case by (simp add: Encode_Nil)
next
  case (One a)
  then have "4 \<le> D - length dst" by simp
  then show ?case by (simp add: dec_tail1 length_Encode_short)
next
  case (Two a b)
  then have "4 \<le> D - length dst" by simp
  then show ?case by (simp add: dec_tail2 length_Encode_short)
next
  case (Three a b c)
  then have "4 \<le> D - length dst" by simp
  then show ?case by (simp add: dec_tail3 length_Encode_short)
next
  case (Group a b c d rest)
  let ?n = "length (ascii85_Encode (a # b # c # d # rest)) - length (ascii85_Encode rest)"
  have room: "4 \<le> D - length dst" using Group.prems by simp
  have k: "(length (a # b # c # d # rest) + 3) div 4 = (length rest + 3) div 4 + 1"
    by simp
  have "4 * ((length rest + 3) div 4 + 1) \<le> D - length dst"
    using Group.prems unfolding k .
  then have room': "4 * ((length rest + 3) div 4) \<le> D - length (dst @ [a, b, c, d])"
    by simp
  have n: "length (ascii85_Encode (a # b # c # d # rest)) = ?n + length (ascii85_Encode rest)"
    by (simp add: length_Encode_group)
  have "decode_loop D True 0 0 i dst ns (ascii85_Encode (a # b # c # d # rest))
        = decode_loop D True 0 0 (i + ?n) (dst @ [a, b, c, d]) (i + ?n) (ascii85_Encode rest)"
    by (rule dec_full [OF room])
  also have "\<dots> = Inr ((dst @ [a, b, c, d]) @ rest, i + ?n + length (ascii85_Encode rest))"
    by (rule Group.IH [OF room'])
  finally show ?case using n by simp
qed

section \<open>Shape of the encoded identifier\<close>

lemma hex_DecodeString_length:
  "hex_DecodeString h = Inr raw \<Longrightarrow> length h = 2 * length raw"
  by (induction h arbitrary: raw rule: hex_DecodeString.induct)
     (auto split: option.splits sum.splits)

lemma hex_DecodeString_ok:
  "even (length h) \<Longrightarrow> list_all (\<lambda>c. fromHexChar c \<noteq> None) h \<Longrightarrow>
   \<exists>raw. hex_DecodeString h = Inr raw"
proof (induction h rule: induct_list012)
  case (3 p q rest)
  from 3(3,4) have "even (length rest)" "list_all (\<lambda>c. fromHexChar c \<noteq> None) rest"
    by simp_all
  then obtain raw where "hex_DecodeString rest = Inr raw"
    using 3(1) by blast
  moreover obtain a b where "fromHexChar p = Some a" "fromHexChar q = Some b"
    using 3(4) by auto
  ultimately show ?case by simp
qed simp_all

lemma printable_digits85: "list_all printable (digits85 v)"
proof -
  have "printable (byte (33 + x mod 85))" for x
    using mod85_le [of x] by (simp add: printable_def u8_digit)
  then show ?thesis by (simp add: digits85_def Let_def)
qed

lemma printable_z: "printable CHR ''z''"
  by (simp add: printable_def u8_z)

lemma list_all_take: "list_all P xs \<Longrightarrow> list_all P (take n xs)"
  by (induction xs arbitrary: n) (auto simp: take_Cons split: nat.splits)

lemma printable_Encode: "list_all printable (ascii85_Encode bs)"
proof (induction bs rule: list4_induct)
  case Nil
  show ?case by (simp add: Encode_Nil)
next
  case (Group a b c d rest)
  then show ?case
    by (simp add: Encode_group printable_digits85 printable_z)
qed (simp_all add: Encode_short list_all_take printable_digits85)

lemma ValidString_ascii: "list_all (\<lambda>c. u8 c < 128) s \<Longrightarrow> ValidString s"
  by (induction s) auto

lemma ValidString_Encode: "ValidString (ascii85_Encode bs)"
proof (rule ValidString_ascii)
  have "printable c \<Longrightarrow> u8 c < 128" for c by (simp add: printable_def)
  then show "list_all (\<lambda>c. u8 c < 128) (ascii85_Encode bs)"
    using printable_Encode [of bs] by (simp add: list_all_iff)
qed

lemma pack_zero_iff:
  "pack (a # b # c # d # rest) = 0 \<longleftrightarrow> u8 a = 0 \<and> u8 b = 0 \<and> u8 c = 0 \<and> u8 d = 0"
  by (simp add: pack4)

lemma length_Encode:
  "length (ascii85_Encode bs) + 4 * zero_groups bs
   = 5 * (length bs div 4) + (if length bs mod 4 = 0 then 0 else length bs mod 4 + 1)"
proof (induction bs rule: list4_induct)
  case Nil
  show ?case by (simp add: Encode_Nil)
next
  case (Group a b c d rest)
  have "length (a # b # c # d # rest) = length rest + 4" by simp
  then have dm: "length (a # b # c # d # rest) div 4 = length rest div 4 + 1"
    "length (a # b # c # d # rest) mod 4 = length rest mod 4"
    by (simp_all del: length_Cons list.size)
  show ?case
    unfolding dm using Group.IH
    by (simp add: length_Encode_group pack_zero_iff del: length_Cons)
qed (simp_all add: length_Encode_short)

lemma u8_byte_numeral: "u8 (byte (numeral n)) = numeral n mod 256"
  by (simp add: u8_def byte_def)

lemma u8_byte_0: "u8 (byte 0) = 0"
  by (simp add: u8_def byte_def)

lemma width_bounds:
  fixes n :: nat
  defines "w \<equiv> 5 * (n div 4) + (if n mod 4 = 0 then 0 else n mod 4 + 1)"
  shows "w \<le> (n + 3) div 4 * 5 \<and> w \<le> 2 * n \<and> (2 \<le> n \<longrightarrow> w < 2 * n)"
proof -
  obtain q where "n = 4 * q \<or> n = 4 * q + 1 \<or> n = 4 * q + 2 \<or> n = 4 * q + 3"
  proof
    have "n = 4 * (n div 4) + n mod 4" by simp
    moreover have "n mod 4 < 4" by simp
    ultimately show "n = 4 * (n div 4) \<or> n = 4 * (n div 4) + 1 \<or> n = 4 * (n div 4) + 2
        \<or> n = 4 * (n div 4) + 3"
      by linarith
  qed
  then consider "n = 4 * q" | "n = 4 * q + 1" | "n = 4 * q + 2" | "n = 4 * q + 3"
    by blast
  then show ?thesis
  proof cases
    case 1
    then show ?thesis by (simp add: w_def)
  next
    case 2
    then have "n div 4 = q" "n mod 4 = 1" "(n + 3) div 4 = q + 1" by presburger+
    then show ?thesis using 2 by (simp add: w_def)
  next
    case 3
    then have "n div 4 = q" "n mod 4 = 2" "(n + 3) div 4 = q + 1" by presburger+
    then show ?thesis using 3 by (simp add: w_def)
  next
    case 4
    then have "n div 4 = q" "n mod 4 = 3" "(n + 3) div 4 = q + 1" by presburger+
    then show ?thesis using 4 by (simp add: w_def)
  qed
qed

lemma hibpEtl_line_ascii85_Inr: "\<exists>st'. hibpEtl_line_ascii85 B e text st = Inr st'"
  by (simp add: hibpEtl_line_ascii85_def Let_def ValidString_Encode
      split: sum.split prod.split)

lemma hibpEtl_scan_ascii85_Inr: "\<exists>st'. hibpEtl_scan_ascii85 B e texts st = Inr st'"
proof (induction texts arbitrary: st)
  case Nil
  show ?case by simp
next
  case (Cons l rest)
  obtain st1 where "hibpEtl_line_ascii85 B e l st = Inr st1"
    using hibpEtl_line_ascii85_Inr by blast
  then show ?case using Cons.IH [of st1] by simp
qed

section \<open>The scanner loop, the final flush and the ledger\<close>

lemma SplitN_2:
  "SplitN s sep 2 =
     (if sep \<in> set s then [takeWhile (\<lambda>c. c \<noteq> sep) s, tl (dropWhile (\<lambda>c. c \<noteq> sep) s)]
      else [s])"
  by (simp add: numeral_2_eq_2)

lemma takeWhile_upto_sep:
  "sep \<notin> set h \<Longrightarrow> takeWhile (\<lambda>c. c \<noteq> sep) (h @ sep # n) = h"
  by (induction h) auto

lemma dropWhile_upto_sep:
  "sep \<notin> set h \<Longrightarrow> dropWhile (\<lambda>c. c \<noteq> sep) (h @ sep # n) = sep # n"
  by (induction h) auto

lemma SplitN_first:
  "sep \<notin> set h \<Longrightarrow> SplitN (h @ sep # n) sep 2 = [h, n]"
  by (simp add: SplitN_2 takeWhile_upto_sep dropWhile_upto_sep)

lemma length_SplitN_2: "length (SplitN s sep 2) = 2 \<longleftrightarrow> sep \<in> set s"
  by (simp add: SplitN_2)

lemma hibpProcessRowDataBatch_count_eq:
  "hibpProcessRowDataBatch_count e rows w =
     (if pool_Exec e (calls w) (batch_count rows)
      then (1, w\<lparr>calls := calls w @ [batch_count rows], logs := logs w @ [''Err: %v on %s'']\<rparr>)
      else (0, w\<lparr>calls := calls w @ [batch_count rows]\<rparr>))"
  by (simp add: hibpProcessRowDataBatch_count_def Exec_def Printf_def batch_count_def)

lemma hibpProcessRowDataBatch_ascii85_eq:
  "hibpProcessRowDataBatch_ascii85 e rows w =
     (if pool_Exec e (calls w) (batch_ascii85 rows)
      then (1, w\<lparr>calls := calls w @ [batch_ascii85 rows], logs := logs w @ [''Err: %v on %s: %v'']\<rparr>)
      else (0, w\<lparr>calls := calls w @ [batch_ascii85 rows]\<rparr>))"
  by (simp add: hibpProcessRowDataBatch_ascii85_def Exec_def Printf_def batch_ascii85_def)

lemma flush_count_fields:
  "count (flush_count e st) = count st"
  "rowData (flush_count e st) = []"
  "calls (flush_count e st) = calls st @ [batch_count (rowData st)]"
  "errors (flush_count e st)
     = errors st + (if pool_Exec e (calls st) (batch_count (rowData st)) then 1 else 0)"
  by (simp_all add: flush_count_def hibpProcessRowDataBatch_count_eq Printf_def)

lemma hibpEtl_line_count_eq:
  "hibpEtl_line_count B e text st =
     (case parse_count e text of
        None \<Rightarrow> st\<lparr>errors := errors st + 1\<rparr>
      | Some row \<Rightarrow>
          if (count st + 1) mod B = 0
          then flush_count e (st\<lparr>count := count st + 1, rowData := rowData st @ [row]\<rparr>)
          else st\<lparr>count := count st + 1, rowData := rowData st @ [row]\<rparr>)"
  by (simp add: hibpEtl_line_count_def parse_count_def key_field_def value_field_def SplitN_2 flush_count_def Let_def
      split: option.split)

lemma scan_count_append:
  "hibpEtl_scan_count B e (xs @ ys) st = hibpEtl_scan_count B e ys (hibpEtl_scan_count B e xs st)"
  by (induction xs arbitrary: st) simp_all

lemma rows_count_append: "rows_count e (xs @ ys) = rows_count e xs @ rows_count e ys"
  by (induction xs) (simp_all split: option.split)

lemma rows_count_valid:
  "list_all (\<lambda>l. parse_count e l \<noteq> None) ls \<Longrightarrow> length (rows_count e ls) = length ls"
  by (induction ls) auto

lemma mod_succ_small:
  fixes c B :: nat
  assumes "c mod B + 1 < B"
  shows "(c + 1) mod B = c mod B + 1"
  using assms by (simp add: mod_Suc)

lemma scan_count_fill:
  "list_all (\<lambda>l. parse_count e l \<noteq> None) xs \<Longrightarrow> count st mod B + length xs < B \<Longrightarrow>
   hibpEtl_scan_count B e xs st
     = st\<lparr>count := count st + length xs, rowData := rowData st @ rows_count e xs\<rparr>"
proof (induction xs arbitrary: st)
  case Nil
  show ?case by simp
next
  case (Cons x xs)
  from Cons.prems(1) obtain row where row: "parse_count e x = Some row" by auto
  let ?st1 = "st\<lparr>count := count st + 1, rowData := rowData st @ [row]\<rparr>"
  have small: "count st mod B + 1 < B" using Cons.prems(2) by simp
  then have m: "(count st + 1) mod B = count st mod B + 1" by (rule mod_succ_small)
  then have step: "hibpEtl_line_count B e x st = ?st1"
    by (simp add: hibpEtl_line_count_eq row)
  have "count ?st1 mod B + length xs < B"
    using Cons.prems(2) m by simp
  with Cons.prems(1) have
    "hibpEtl_scan_count B e xs ?st1
       = ?st1\<lparr>count := count ?st1 + length xs, rowData := rowData ?st1 @ rows_count e xs\<rparr>"
    by (intro Cons.IH) simp_all
  then show ?case by (simp add: step row)
qed

lemma scan_count_batch:
  assumes valid: "list_all (\<lambda>l. parse_count e l \<noteq> None) xs"
    and full: "count st mod B + length xs = B" and B: "0 < B"
  shows "hibpEtl_scan_count B e xs st
     = flush_count e (st\<lparr>count := count st + length xs, rowData := rowData st @ rows_count e xs\<rparr>)"
proof -
  have "count st mod B < B" using B by simp
  with full have "xs \<noteq> []" by auto
  then obtain ys x where xs: "xs = ys @ [x]" by (metis rev_exhaust)
  from valid obtain row where row: "parse_count e x = Some row" by (auto simp: xs)
  have vys: "list_all (\<lambda>l. parse_count e l \<noteq> None) ys" using valid by (simp add: xs)
  have small: "count st mod B + length ys < B" using full by (simp add: xs)
  let ?s = "st\<lparr>count := count st + length ys, rowData := rowData st @ rows_count e ys\<rparr>"
  have fill: "hibpEtl_scan_count B e ys st = ?s"
    using vys small by (rule scan_count_fill)
  have "(count st + length ys + 1) mod B = (count st mod B + length ys + 1) mod B"
    by (metis add.assoc mod_add_left_eq)
  also have "\<dots> = 0" using full by (simp add: xs)
  finally have z: "(count ?s + 1) mod B = 0" by simp
  have "hibpEtl_scan_count B e xs st = hibpEtl_line_count B e x ?s"
    by (simp add: xs scan_count_append fill)
  also have "\<dots> = flush_count e (?s\<lparr>count := count ?s + 1, rowData := rowData ?s @ [row]\<rparr>)"
    using z by (simp add: hibpEtl_line_count_eq row)
  finally show ?thesis by (simp add: xs rows_count_append row)
qed

lemma dbLogImportData_eq:
  "dbLogImportData e ''pwned-passwords-sha1'' state time w =
     (if pool_Exec e (calls w) (ledger_call state time)
      then w\<lparr>calls := calls w @ [ledger_call state time],
              logs := logs w @ [''Error writing to imports: %v'']\<rparr>
      else w\<lparr>calls := calls w @ [ledger_call state time]\<rparr>)"
  by (simp add: dbLogImportData_def Exec_def Printf_def ledger_call_def)

lemma finish_count_fields:
  "fst (hibpEtl_finish_count e time st) = count st"
  "count (snd (hibpEtl_finish_count e time st)) = count st"
  "rowData (snd (hibpEtl_finish_count e time st)) = rowData st"
  "errors (snd (hibpEtl_finish_count e time st)) = final_errors_count e st"
  "calls (snd (hibpEtl_finish_count e time st))
     = calls st @ [batch_count (rowData st),
                   ledger_call (final_state (final_errors_count e st)) time]"
  by (simp_all add: hibpEtl_finish_count_def hibpProcessRowDataBatch_count_eq
      dbLogImportData_eq Printf_def Let_def final_errors_count_def final_state_def)

lemma hibpEtl_count_Inr:
  assumes "hibpEtl_count B e connectionString filename date = Inr (n, st)"
  obtains time ls where
    "date \<noteq> []" "time_Parse e DATE_FORMAT date = Some time"
    "pgxpool_Connect e connectionString"
    "\<not> pool_Exec e [] (HIBP_TABLE_SCHEMA_count, [])"
    "\<not> pool_Exec e [(HIBP_TABLE_SCHEMA_count, [])] (IMPORT_TABLE_SCHEMA, [])"
    "os_Open e filename = Some (ls, False)"
    "(n, st) = hibpEtl_finish_count e time (hibpEtl_scan_count B e ls loop_entry_count)"
  using assms
  by (auto simp: hibpEtl_count_def Let_def stringToDate_def dbSchemaCreate_def Exec_def Printf_def
      loop_entry_count_def
      split: sum.splits prod.splits option.splits if_splits)

lemma hibpEtl_count_run:
  assumes "date \<noteq> []" "time_Parse e DATE_FORMAT date = Some time"
    "pgxpool_Connect e connectionString"
    "\<not> pool_Exec e [] (HIBP_TABLE_SCHEMA_count, [])"
    "\<not> pool_Exec e [(HIBP_TABLE_SCHEMA_count, [])] (IMPORT_TABLE_SCHEMA, [])"
    "os_Open e filename = Some (ls, False)"
  shows "hibpEtl_count B e connectionString filename date
         = Inr (hibpEtl_finish_count e time (hibpEtl_scan_count B e ls loop_entry_count))"
  using assms
  by (simp add: hibpEtl_count_def Let_def stringToDate_def dbSchemaCreate_def Exec_def Printf_def
      loop_entry_count_def)

lemma rows_count_take:
  "list_all (\<lambda>l. parse_count e l \<noteq> None) ls \<Longrightarrow> rows_count e (take k ls) = take k (rows_count e ls)"
proof (induction ls arbitrary: k)
  case Nil
  show ?case by simp
next
  case (Cons l ls)
  then show ?case by (cases k) auto
qed

lemma rows_count_drop:
  "list_all (\<lambda>l. parse_count e l \<noteq> None) ls \<Longrightarrow> rows_count e (drop k ls) = drop k (rows_count e ls)"
proof (induction ls arbitrary: k)
  case Nil
  show ?case by simp
next
  case (Cons l ls)
  then show ?case by (cases k) auto
qed

lemma list_all_drop: "list_all P xs \<Longrightarrow> list_all P (drop n xs)"
  by (metis append_take_drop_id list_all_append)

lemma scan_count_two_batches_and_one:
  assumes B: "1 < B" and len: "length ls = 2 * B + 1"
    and valid: "list_all (\<lambda>l. parse_count e l \<noteq> None) ls"
    and st: "count st = 0" "rowData st = []"
  defines "rows \<equiv> rows_count e ls"
  shows "count (hibpEtl_scan_count B e ls st) = 2 * B + 1"
    and "rowData (hibpEtl_scan_count B e ls st) = drop (2 * B) rows"
    and "calls (hibpEtl_scan_count B e ls st)
          = calls st @ [batch_count (take B rows), batch_count (take B (drop B rows))]"
proof -
  let ?l1 = "take B ls" and ?l2 = "take B (drop B ls)" and ?l3 = "drop (2 * B) ls"
  have split: "ls = ?l1 @ ?l2 @ ?l3"
    by (metis add.commute append_take_drop_id drop_drop mult_2)
  have v1: "list_all (\<lambda>l. parse_count e l \<noteq> None) ?l1"
    and v2: "list_all (\<lambda>l. parse_count e l \<noteq> None) ?l2"
    and v3: "list_all (\<lambda>l. parse_count e l \<noteq> None) ?l3"
    using valid by (simp_all add: list_all_take list_all_drop)
  have n1: "length ?l1 = B" and n2: "length ?l2 = B" and n3: "length ?l3 = 1"
    using len by simp_all
  have r1: "rows_count e ?l1 = take B rows"
    and r2: "rows_count e ?l2 = take B (drop B rows)"
    and r3: "rows_count e ?l3 = drop (2 * B) rows"
    using valid by (simp_all add: rows_def rows_count_take rows_count_drop list_all_drop)
  define s1 where "s1 = hibpEtl_scan_count B e ?l1 st"
  define s2 where "s2 = hibpEtl_scan_count B e ?l2 s1"
  define s3 where "s3 = hibpEtl_scan_count B e ?l3 s2"
  have "hibpEtl_scan_count B e ls st = hibpEtl_scan_count B e (?l1 @ ?l2 @ ?l3) st"
    using split by simp
  then have s3: "hibpEtl_scan_count B e ls st = s3"
    by (simp only: scan_count_append s1_def s2_def s3_def)
  have e1: "s1 = flush_count e (st\<lparr>count := count st + length ?l1,
                                    rowData := rowData st @ rows_count e ?l1\<rparr>)"
    unfolding s1_def by (intro scan_count_batch v1) (use B st n1 in simp_all)
  have c1: "count s1 = B" "rowData s1 = []" "calls s1 = calls st @ [batch_count (take B rows)]"
    using n1 by (simp_all add: e1 flush_count_fields st r1)
  have e2: "s2 = flush_count e (s1\<lparr>count := count s1 + length ?l2,
                                    rowData := rowData s1 @ rows_count e ?l2\<rparr>)"
    unfolding s2_def by (intro scan_count_batch v2) (use B c1 n2 in simp_all)
  have c2: "count s2 = 2 * B" "rowData s2 = []"
    "calls s2 = calls st @ [batch_count (take B rows), batch_count (take B (drop B rows))]"
    using n2 by (simp_all add: e2 flush_count_fields c1 r2)
  have "count s2 mod B + length ?l3 < B"
    using B n3 by (simp add: c2)
  with v3 have e3: "s3 = s2\<lparr>count := count s2 + length ?l3,
                               rowData := rowData s2 @ rows_count e ?l3\<rparr>"
    unfolding s3_def by (rule scan_count_fill)
  show "count (hibpEtl_scan_count B e ls st) = 2 * B + 1"
    using n3 by (simp add: s3 e3 c2)
  show "rowData (hibpEtl_scan_count B e ls st) = drop (2 * B) rows"
    by (simp add: s3 e3 c2 r3)
  show "calls (hibpEtl_scan_count B e ls st)
          = calls st @ [batch_count (take B rows), batch_count (take B (drop B rows))]"
    by (simp add: s3 e3 c2)
qed

lemma byte_digits:
  "byte 48 = CHR ''0''" "byte 49 = CHR ''1''" "byte 50 = CHR ''2''" "byte 51 = CHR ''3''"
  "byte 52 = CHR ''4''" "byte 53 = CHR ''5''" "byte 54 = CHR ''6''" "byte 55 = CHR ''7''"
  "byte 56 = CHR ''8''" "byte 57 = CHR ''9''"
  by code_simp+

lemmas run_defs = hibpEtl_count_def Let_def stringToDate_def dbSchemaCreate_def Exec_def Printf_def
  hibpEtl_finish_count_def hibpProcessRowDataBatch_count_def hibp_query_count_def
  hibp_query_ascii85_def dbLogImportData_def DATE_FORMAT_def
  HIBP_TABLE_SCHEMA_count_def IMPORT_TABLE_SCHEMA_def IMPORT_QUERY_def

lemmas line_defs = hibpEtl_line_count_def SplitN_2 Atoi_def isDigit_def u8_def ToLower_def
  lowerASCII_def itoa.simps byte_digits

lemma batch_count_not_ledger: "fst (batch_count rows) \<noteq> IMPORT_QUERY"
  by (simp add: batch_count_def hibp_query_count_def IMPORT_QUERY_def)

lemma scan_count_no_ledger:
  "filter (\<lambda>c. fst c = IMPORT_QUERY) (calls (hibpEtl_scan_count B e ls st))
   = filter (\<lambda>c. fst c = IMPORT_QUERY) (calls st)"
proof (induction ls arbitrary: st)
  case Nil
  show ?case by simp
next
  case (Cons l ls)
  have "filter (\<lambda>c. fst c = IMPORT_QUERY) (calls (hibpEtl_line_count B e l st))
        = filter (\<lambda>c. fst c = IMPORT_QUERY) (calls st)"
    by (simp add: hibpEtl_line_count_eq flush_count_fields batch_count_not_ledger
        split: option.split)
  then show ?case by (simp add: Cons.IH)
qed

lemma loop_entry_count_no_ledger:
  "filter (\<lambda>c. fst c = IMPORT_QUERY) (calls loop_entry_count) = []"
  by (simp add: loop_entry_count_def HIBP_TABLE_SCHEMA_count_def IMPORT_TABLE_SCHEMA_def
      IMPORT_QUERY_def)

lemmas run_defs_ascii85 = hibpEtl_ascii85_def stringToDate_def dbSchemaCreate_def Exec_def
  Printf_def hibpEtl_finish_ascii85_def hibpProcessRowDataBatch_ascii85_def
  hibp_query_count_def hibp_query_ascii85_def dbLogImportData_def DATE_FORMAT_def
  HIBP_TABLE_SCHEMA_ascii85_def IMPORT_TABLE_SCHEMA_def IMPORT_QUERY_def

lemma empty_file_count:
  assumes "hibpEtl_count B e connectionString filename date = Inr (n, st)"
    and "os_Open e filename = Some ([], scanErr)"
  shows "n = 0"
    and "calls st = [(HIBP_TABLE_SCHEMA_count, []), (IMPORT_TABLE_SCHEMA, []), batch_count [],
                     ledger_call (final_state (errors st)) (the (time_Parse e DATE_FORMAT date))]"
    and "errors st = (if pool_Exec e [(HIBP_TABLE_SCHEMA_count, []), (IMPORT_TABLE_SCHEMA, [])]
                          (batch_count []) then 1 else 0)"
proof -
  from assms(1) obtain time ls where
    t: "time_Parse e DATE_FORMAT date = Some time"
    and o: "os_Open e filename = Some (ls, False)"
    and r: "(n, st) = hibpEtl_finish_count e time (hibpEtl_scan_count B e ls loop_entry_count)"
    by (rule hibpEtl_count_Inr)
  from o assms(2) have "ls = []" by simp
  with r have r': "(n, st) = hibpEtl_finish_count e time loop_entry_count" by simp
  have n: "n = fst (hibpEtl_finish_count e time loop_entry_count)"
    and st: "st = snd (hibpEtl_finish_count e time loop_entry_count)"
    using r' by (metis fst_conv, metis snd_conv)
  show "n = 0" by (simp add: n finish_count_fields loop_entry_count_def)
  show "calls st = [(HIBP_TABLE_SCHEMA_count, []), (IMPORT_TABLE_SCHEMA, []), batch_count [],
                     ledger_call (final_state (errors st)) (the (time_Parse e DATE_FORMAT date))]"
    by (simp add: st finish_count_fields t) (simp add: loop_entry_count_def)
  show "errors st = (if pool_Exec e [(HIBP_TABLE_SCHEMA_count, []), (IMPORT_TABLE_SCHEMA, [])]
                          (batch_count []) then 1 else 0)"
    by (simp add: st finish_count_fields final_errors_count_def loop_entry_count_def)
qed

lemma ToLower_sample: "ToLower f ''AB12'' = ''ab12''"
  by code_simp

section \<open>Line splitting, error accounting and the ledger write\<close>

lemma hibpEtl_line_ascii85_eq:
  "hibpEtl_line_ascii85 B e text st =
     (if CHR '':'' \<in> set text
      then (case hex_DecodeString (key_field text) of
              Inl err \<Rightarrow> Inr (st\<lparr>errors := errors st + 1\<rparr>)
            | Inr hash \<Rightarrow>
                Inr (if (count st + 1) mod B = 0
                     then flush_ascii85 e
                            (st\<lparr>count := count st + 1,
                                rowData := rowData st @ [ascii85_Encode hash]\<rparr>)
                     else st\<lparr>count := count st + 1,
                             rowData := rowData st @ [ascii85_Encode hash]\<rparr>))
      else Inr (st\<lparr>errors := errors st + 1\<rparr>))"
  by (simp add: hibpEtl_line_ascii85_def SplitN_2 key_field_def flush_ascii85_def Let_def
      ValidString_Encode split: sum.split prod.split)

lemma split_at_first:
  "CHR '':'' \<in> set text \<Longrightarrow>
   key_field text @ CHR '':'' # value_field text = text \<and> CHR '':'' \<notin> set (key_field text)"
proof -
  assume "CHR '':'' \<in> set text"
  then have "dropWhile (\<lambda>c. c \<noteq> CHR '':'') text \<noteq> []"
    by (simp add: dropWhile_eq_Nil_conv)
  moreover have "hd (dropWhile (\<lambda>c. c \<noteq> CHR '':'') text) = CHR '':''"
    using calculation hd_dropWhile by (metis (mono_tags, lifting))
  ultimately have "dropWhile (\<lambda>c. c \<noteq> CHR '':'') text
                   = CHR '':'' # tl (dropWhile (\<lambda>c. c \<noteq> CHR '':'') text)"
    by (metis list.collapse)
  then have "key_field text @ CHR '':'' # value_field text = text"
    unfolding key_field_def value_field_def by (metis takeWhile_dropWhile_id)
  moreover have "CHR '':'' \<notin> set (key_field text)"
    unfolding key_field_def by (metis (mono_tags, lifting) set_takeWhileD)
  ultimately show ?thesis by simp
qed

lemma failures_append:
  "failures e h (xs @ ys) = failures e h xs + failures e (h @ xs) ys"
  by (induction xs arbitrary: h) simp_all

lemma scan_count_accounting:
  "\<exists>new. calls (hibpEtl_scan_count B e ls st) = calls st @ new
     \<and> errors (hibpEtl_scan_count B e ls st)
         = errors st + length (filter (\<lambda>l. parse_count e l = None) ls)
           + failures e (calls st) new
     \<and> count (hibpEtl_scan_count B e ls st) = count st + length (rows_count e ls)"
proof (induction ls arbitrary: st)
  case Nil
  show ?case by simp
next
  case (Cons l ls)
  let ?st1 = "hibpEtl_line_count B e l st"
  obtain new where new: "calls (hibpEtl_scan_count B e ls ?st1) = calls ?st1 @ new"
    "errors (hibpEtl_scan_count B e ls ?st1)
       = errors ?st1 + length (filter (\<lambda>l. parse_count e l = None) ls)
         + failures e (calls ?st1) new"
    "count (hibpEtl_scan_count B e ls ?st1) = count ?st1 + length (rows_count e ls)"
    using Cons.IH [of ?st1] by blast
  show ?case
  proof (cases "parse_count e l")
    case None
    then have "calls ?st1 = calls st" "errors ?st1 = errors st + 1" "count ?st1 = count st"
      by (simp_all add: hibpEtl_line_count_eq)
    with new None show ?thesis by simp
  next
    case (Some row)
    show ?thesis
    proof (cases "(count st + 1) mod B = 0")
      case False
      with Some have "calls ?st1 = calls st" "errors ?st1 = errors st"
        "count ?st1 = count st + 1"
        by (simp_all add: hibpEtl_line_count_eq)
      with new Some show ?thesis by simp
    next
      case True
      let ?c = "batch_count (rowData st @ [row])"
      from True Some have "calls ?st1 = calls st @ [?c]"
        "errors ?st1 = errors st + (if pool_Exec e (calls st) ?c then 1 else 0)"
        "count ?st1 = count st + 1"
        by (simp_all add: hibpEtl_line_count_eq flush_count_fields)
      with new Some have
        "calls (hibpEtl_scan_count B e (l # ls) st) = calls st @ (?c # new)
         \<and> errors (hibpEtl_scan_count B e (l # ls) st)
             = errors st + length (filter (\<lambda>l. parse_count e l = None) (l # ls))
               + failures e (calls st) (?c # new)
         \<and> count (hibpEtl_scan_count B e (l # ls) st)
             = count st + length (rows_count e (l # ls))"
        by simp
      then show ?thesis by blast
    qed
  qed
qed

lemma schema_not_ledger:
  "HIBP_TABLE_SCHEMA_count \<noteq> IMPORT_QUERY" "IMPORT_TABLE_SCHEMA \<noteq> IMPORT_QUERY"
  by (simp_all add: HIBP_TABLE_SCHEMA_count_def IMPORT_TABLE_SCHEMA_def IMPORT_QUERY_def)

lemma batch_writer_ledger_env:
  "hibpProcessRowDataBatch_count (ledger_rejected e) rows w = hibpProcessRowDataBatch_count e rows w"
  "hibpProcessRowDataBatch_count (ledger_accepted e) rows w = hibpProcessRowDataBatch_count e rows w"
  using batch_count_not_ledger [of rows]
  by (simp_all add: hibpProcessRowDataBatch_count_eq ledger_rejected_def ledger_accepted_def)

lemma parse_count_ledger_env:
  "parse_count (ledger_rejected e) l = parse_count e l"
  "parse_count (ledger_accepted e) l = parse_count e l"
  by (simp_all add: parse_count_def ledger_rejected_def ledger_accepted_def split: option.split)

lemma flush_count_ledger_env:
  "flush_count (ledger_rejected e) st = flush_count e st"
  "flush_count (ledger_accepted e) st = flush_count e st"
  by (simp_all add: flush_count_def batch_writer_ledger_env)

lemma line_count_ledger_env:
  "hibpEtl_line_count B (ledger_rejected e) l st = hibpEtl_line_count B e l st"
  "hibpEtl_line_count B (ledger_accepted e) l st = hibpEtl_line_count B e l st"
  by (simp_all add: hibpEtl_line_count_eq parse_count_ledger_env flush_count_ledger_env
      split: option.split)

lemma scan_count_ledger_env:
  "hibpEtl_scan_count B (ledger_rejected e) ls st = hibpEtl_scan_count B e ls st"
  "hibpEtl_scan_count B (ledger_accepted e) ls st = hibpEtl_scan_count B e ls st"
  by (induction ls arbitrary: st) (simp_all add: line_count_ledger_env)

lemma finish_count_ledger_env:
  "hibpEtl_finish_count (ledger_rejected e) time st
   = (case hibpEtl_finish_count (ledger_accepted e) time st of
        (n, st') \<Rightarrow> (n, st'\<lparr>logs := logs st' @ [''Error writing to imports: %v'']\<rparr>))"
  using batch_count_not_ledger [of "rowData st"]
  by (simp add: hibpEtl_finish_count_def batch_writer_ledger_env
      hibpProcessRowDataBatch_count_eq dbLogImportData_def Exec_def Printf_def Let_def)
     (simp add: ledger_rejected_def ledger_accepted_def)

lemma prelude_ledger_env:
  "stringToDate (ledger_rejected e) date w = stringToDate e date w"
  "stringToDate (ledger_accepted e) date w = stringToDate e date w"
  "pgxpool_Connect (ledger_rejected e) = pgxpool_Connect e"
  "pgxpool_Connect (ledger_accepted e) = pgxpool_Connect e"
  "os_Open (ledger_rejected e) = os_Open e"
  "os_Open (ledger_accepted e) = os_Open e"
  "dbSchemaCreate (ledger_rejected e) HIBP_TABLE_SCHEMA_count w
     = dbSchemaCreate e HIBP_TABLE_SCHEMA_count w"
  "dbSchemaCreate (ledger_accepted e) HIBP_TABLE_SCHEMA_count w
     = dbSchemaCreate e HIBP_TABLE_SCHEMA_count w"
  "dbSchemaCreate (ledger_rejected e) IMPORT_TABLE_SCHEMA w = dbSchemaCreate e IMPORT_TABLE_SCHEMA w"
  "dbSchemaCreate (ledger_accepted e) IMPORT_TABLE_SCHEMA w = dbSchemaCreate e IMPORT_TABLE_SCHEMA w"
  using schema_not_ledger
  by (simp_all add: ledger_rejected_def ledger_accepted_def stringToDate_def dbSchemaCreate_def
      Exec_def)

section \<open>Claims about the identifier encoder\<close>

text \<open>
  Claim C3. Every even-length string of hex digits decodes to raw bytes, and decoding the
  ascii85 text of those bytes gives the same bytes back, with all of the text consumed.
  The destination of \<^verbatim>\<open>ascii85.Decode\<close> must have room for the bytes rounded up to whole
  groups of four, because the decoder stops as soon as fewer than four bytes are free.
\<close>

theorem C3_roundtrip:
  assumes "even (length h)" and "list_all (\<lambda>c. fromHexChar c \<noteq> None) h"
    and "4 * ((length h div 2 + 3) div 4) \<le> dstLen"
  shows "\<exists>raw. hex_DecodeString h = Inr raw
           \<and> ascii85_Decode dstLen (ascii85_Encode raw) True
               = Inr (raw, length (ascii85_Encode raw))"
proof -
  obtain raw where raw: "hex_DecodeString h = Inr raw"
    using hex_DecodeString_ok [OF assms(1,2)] by blast
  then have "length h div 2 = length raw"
    by (simp add: hex_DecodeString_length)
  then have "4 * ((length raw + 3) div 4) \<le> dstLen - length ([] :: char list)"
    using assms(3) by simp
  then have "decode_loop dstLen True 0 0 0 [] 0 (ascii85_Encode raw)
             = Inr ([] @ raw, 0 + length (ascii85_Encode raw))"
    by (rule roundtrip_loop)
  then show ?thesis
    using raw by (simp add: ascii85_Decode_def)
qed

text \<open>The round trip on the digest \<^verbatim>\<open>68656c6c6f\<close>, with a destination of eight bytes.\<close>

theorem C3_roundtrip_witness:
  "hex_DecodeString ''68656c6c6f'' = Inr ''hello''
   \<and> ascii85_Decode 8 (ascii85_Encode ''hello'') True = Inr (''hello'', length (ascii85_Encode ''hello''))"
proof -
  have h: "hex_DecodeString ''68656c6c6f'' = Inr ''hello''"
    by code_simp
  have "even (length ''68656c6c6f'')" "list_all (\<lambda>c. fromHexChar c \<noteq> None) ''68656c6c6f''"
    "4 * ((length ''68656c6c6f'' div 2 + 3) div 4) \<le> (8::nat)"
    by code_simp+
  from C3_roundtrip [OF this] h show ?thesis by simp
qed

text \<open>
  Claim C9 as stated fails. The digests \<^verbatim>\<open>00000000\<close> and \<^verbatim>\<open>00000002\<close> have the same
  length, and their identifiers have one and five bytes: ascii85 writes an all-zero group
  as the single byte \<^verbatim>\<open>'z'\<close>. The one-byte digest \<^verbatim>\<open>ab\<close> has an identifier of two bytes,
  as long as its hex text.
\<close>

theorem C9_counterexample:
  "hex_DecodeString ''00000000'' = Inr [byte 0, byte 0, byte 0, byte 0]
   \<and> length (ascii85_Encode [byte 0, byte 0, byte 0, byte 0]) = 1
   \<and> hex_DecodeString ''00000002'' = Inr [byte 0, byte 0, byte 0, byte 2]
   \<and> length (ascii85_Encode [byte 0, byte 0, byte 0, byte 2]) = 5
   \<and> hex_DecodeString ''ab'' = Inr [byte 171]
   \<and> length (ascii85_Encode [byte 171]) = length ''ab''"
proof -
  have "hex_DecodeString ''00000000'' = Inr [byte 0, byte 0, byte 0, byte 0]"
    "hex_DecodeString ''00000002'' = Inr [byte 0, byte 0, byte 0, byte 2]"
    "hex_DecodeString ''ab'' = Inr [byte 171]"
    by code_simp+
  moreover have "length (ascii85_Encode [byte 0, byte 0, byte 0, byte 0]) = 1"
    "length (ascii85_Encode [byte 0, byte 0, byte 0, byte 2]) = 5"
    by (simp_all add: length_Encode_group pack_zero_iff Encode_Nil u8_byte_0 u8_byte_numeral)
  moreover have "length (ascii85_Encode [byte 171]) = length ''ab''"
    by (simp add: length_Encode_short)
  ultimately show ?thesis by blast
qed

text \<open>
  Claim C9, amended. For a key field that decodes as hex to \<open>n\<close> bytes, the identifier
  is printable, and its length is \<open>5 * (n div 4)\<close>, plus \<open>n mod 4 + 1\<close> for a final
  partial group, minus four for every aligned all-zero group. It never exceeds
  \<^verbatim>\<open>MaxEncodedLen\<close> nor the length of the hex text, and it is strictly shorter than the
  hex text once the digest has two bytes or more. Digests of one length without all-zero
  groups therefore share one width.
\<close>

theorem C9_identifier_width:
  assumes "hex_DecodeString key = Inr hash"
  shows "list_all printable (ascii85_Encode hash)
    \<and> length (ascii85_Encode hash) + 4 * zero_groups hash
        = 5 * (length hash div 4) + (if length hash mod 4 = 0 then 0 else length hash mod 4 + 1)
    \<and> length (ascii85_Encode hash) \<le> MaxEncodedLen (length hash)
    \<and> length (ascii85_Encode hash) \<le> length key
    \<and> (2 \<le> length hash \<longrightarrow> length (ascii85_Encode hash) < length key)"
proof -
  let ?n = "length hash"
  let ?w = "5 * (?n div 4) + (if ?n mod 4 = 0 then 0 else ?n mod 4 + 1)"
  have k: "length key = 2 * ?n"
    using assms by (rule hex_DecodeString_length)
  have w: "length (ascii85_Encode hash) + 4 * zero_groups hash = ?w"
    by (rule length_Encode)
  then have le: "length (ascii85_Encode hash) \<le> ?w" by linarith
  note b = width_bounds [of ?n]
  have "length (ascii85_Encode hash) \<le> MaxEncodedLen ?n"
    unfolding MaxEncodedLen_def using le b by linarith
  moreover have "length (ascii85_Encode hash) \<le> length key"
    unfolding k using le b by linarith
  moreover have "length (ascii85_Encode hash) < length key" if "2 \<le> ?n"
    unfolding k using le b that by linarith
  ultimately show ?thesis
    using w printable_Encode [of hash] by blast
qed

text \<open>The five-byte digest \<^verbatim>\<open>00000000ff\<close>: one all-zero group, an identifier of three bytes.\<close>

theorem C9_identifier_width_witness:
  "hex_DecodeString ''00000000ff'' = Inr [byte 0, byte 0, byte 0, byte 0, byte 255]
   \<and> length (ascii85_Encode [byte 0, byte 0, byte 0, byte 0, byte 255]) + 4 * 1 = 5 * 1 + 2
   \<and> length (ascii85_Encode [byte 0, byte 0, byte 0, byte 0, byte 255]) < length ''00000000ff''"
proof -
  have h: "hex_DecodeString ''00000000ff'' = Inr [byte 0, byte 0, byte 0, byte 0, byte 255]"
    by code_simp
  have z: "zero_groups [byte 0, byte 0, byte 0, byte 0, byte 255] = 1"
    by (simp add: u8_byte_0)
  have "length (ascii85_Encode [byte 0, byte 0, byte 0, byte 0, byte 255]) + 4 * 1 = 5 * 1 + 2
   \<and> length (ascii85_Encode [byte 0, byte 0, byte 0, byte 0, byte 255]) < length ''00000000ff''"
    using C9_identifier_width [OF h] z by simp
  with h show ?thesis by blast
qed

text \<open>
  Claim C10. The ascii85 text of any byte sequence consists of bytes between \<^verbatim>\<open>'!'\<close>
  and \<^verbatim>\<open>'z'\<close>, so \<^verbatim>\<open>utf8.ValidString\<close> accepts it: no line makes the loop body take the
  \<^verbatim>\<open>log.Fatal\<close> branch after encoding, and no run ends there.
\<close>

theorem C10_validity_check_unreachable:
  "list_all printable (ascii85_Encode hash)
   \<and> ValidString (ascii85_Encode hash)
   \<and> hibpEtl_line_ascii85 B e text st \<noteq> Inl FatalNotAString
   \<and> hibpEtl_ascii85 B e connectionString filename date \<noteq> Inl FatalNotAString"
proof (intro conjI)
  show "list_all printable (ascii85_Encode hash)" by (rule printable_Encode)
  show "ValidString (ascii85_Encode hash)" by (rule ValidString_Encode)
  show "hibpEtl_line_ascii85 B e text st \<noteq> Inl FatalNotAString"
    using hibpEtl_line_ascii85_Inr [of B e "text" st] by auto
  show "hibpEtl_ascii85 B e connectionString filename date \<noteq> Inl FatalNotAString"
  proof -
    have "hibpEtl_scan_ascii85 B e texts st' \<noteq> Inl f" for texts st' f
      using hibpEtl_scan_ascii85_Inr [of B e texts st'] by auto
    then show ?thesis
      by (auto simp: hibpEtl_ascii85_def stringToDate_def dbSchemaCreate_def
          split: sum.splits prod.splits option.splits if_splits)
  qed
qed

section \<open>Claims about the pipeline\<close>

text \<open>
  Claim C1, evaluated on the empty input file. Both revisions return zero accepted rows,
  but the unconditional flush after the loop is not a no-op: with an empty buffer the
  batch writer still builds an \<^verbatim>\<open>INSERT\<close> whose \<^verbatim>\<open>VALUES\<close> list is empty and executes it.
  The store rejects that statement, the writer reports one error, and the ledger entry is
  written with state \<^verbatim>\<open>error\<close>, where the claim expects no store operation, zero errors
  and state \<^verbatim>\<open>done\<close>.
\<close>

theorem C1_empty_file_flush_reaches_store:
  "hibpEtl_count BATCH_SIZE_count sample_env ''db'' ''empty.txt'' ''November 19 2020'' =
     Inr (0, \<lparr>calls =
            [(HIBP_TABLE_SCHEMA_count, []), (IMPORT_TABLE_SCHEMA, []),
             (''INSERT INTO hibp (hibp_id, count) VALUES  ON CONFLICT (hibp_id) DO UPDATE SET count = EXCLUDED.count'', []),
             (IMPORT_QUERY, [ArgString ''pwned-passwords-sha1'', ArgString ''error'',
                             ArgTime (Date 2020 11 19)])],
            logs =
              [''File import time %s'', ''HIBP Processing file %s for %s'',
               ''Err: %v on %s'', ''%d Error(s) found''],
            count = 0, errors = 1, rowData = []\<rparr>)
   \<and> hibpEtl_ascii85 BATCH_SIZE_ascii85 sample_env ''db'' ''empty.txt'' ''November 19 2020'' =
     Inr (0, \<lparr>calls =
            [(HIBP_TABLE_SCHEMA_ascii85, []), (IMPORT_TABLE_SCHEMA, []),
             (''INSERT INTO hibp (hibp_id) VALUES  ON CONFLICT (hibp_id) DO NOTHING'', []),
             (IMPORT_QUERY, [ArgString ''pwned-passwords-sha1'', ArgString ''error'',
                             ArgTime (Date 2020 11 19)])],
            logs =
              [''File import time %s'', ''HIBP Processing file %s for %s'',
               ''Err: %v on %s: %v'', ''%d Error(s) found''],
            count = 0, errors = 1, rowData = []\<rparr>)"
  by (simp add: run_defs run_defs_ascii85 sample_env_def)

text \<open>
  Claim C2. In the count revision a line \<open>h:v\<close>, where \<open>h\<close> holds no separator, is
  split into \<open>h\<close> and \<open>v\<close>. When \<^verbatim>\<open>strconv.Atoi\<close> parses \<open>v\<close> as \<open>k\<close>, the row
  appended to the batch is the lower-cased \<open>h\<close> with the count \<open>k\<close>, and the batch is
  flushed at once if it is now full. When \<open>v\<close> does not parse, the only effect is that
  the error counter grows by one: no row, no accepted line, no store call.
\<close>

theorem C2_count_line:
  assumes "CHR '':'' \<notin> set h"
  shows "hibpEtl_line_count B e (h @ CHR '':'' # v) st =
     (case Atoi v of
        None \<Rightarrow> st\<lparr>errors := errors st + 1\<rparr>
      | Some k \<Rightarrow>
          if (count st + 1) mod B = 0
          then flush_count e
                 (st\<lparr>count := count st + 1,
                     rowData := rowData st @ [HibpData (ToLower (unicode_ToLower e) h) k]\<rparr>)
          else st\<lparr>count := count st + 1,
                  rowData := rowData st @ [HibpData (ToLower (unicode_ToLower e) h) k]\<rparr>)"
  using assms
  by (simp add: hibpEtl_line_count_eq parse_count_def key_field_def value_field_def takeWhile_upto_sep dropWhile_upto_sep
      split: option.split)

text \<open>The lines \<^verbatim>\<open>AB12:7\<close> and \<^verbatim>\<open>AB12:x\<close> at the start of a run with batch size two.\<close>

theorem C2_count_line_witness:
  "hibpEtl_line_count 2 sample_env ''AB12:7'' loop_entry_count
     = loop_entry_count\<lparr>count := 1, rowData := [HibpData ''ab12'' 7]\<rparr>
   \<and> hibpEtl_line_count 2 sample_env ''AB12:x'' loop_entry_count
     = loop_entry_count\<lparr>errors := 1\<rparr>"
proof -
  have h: "CHR '':'' \<notin> set ''AB12''" by simp
  have a: "Atoi ''7'' = Some 7" "Atoi ''x'' = None"
    by (simp_all add: Atoi_def isDigit_def u8_def)
  have c: "count loop_entry_count = 0" "errors loop_entry_count = 0"
    "rowData loop_entry_count = []"
    by (simp_all add: loop_entry_count_def)
  from C2_count_line [OF h, of 2 sample_env "''7''" loop_entry_count]
  have "hibpEtl_line_count 2 sample_env ''AB12:7'' loop_entry_count
     = loop_entry_count\<lparr>count := 1, rowData := [HibpData ''ab12'' 7]\<rparr>"
    by (simp add: a c ToLower_sample)
  moreover from C2_count_line [OF h, of 2 sample_env "''x''" loop_entry_count]
  have "hibpEtl_line_count 2 sample_env ''AB12:x'' loop_entry_count
     = loop_entry_count\<lparr>errors := 1\<rparr>"
    by (simp add: a c)
  ultimately show ?thesis by (rule conjI)
qed

text \<open>
  Claim C5. With a batch size \<open>B\<close> of two or more (the source uses 10000 and 60000),
  a completed run of the count revision over \<open>2 * B + 1\<close> accepted lines sends exactly
  these statements to the store: the two schema statements, a batch of the first \<open>B\<close>
  rows, a batch of the next \<open>B\<close> rows, a batch of the one remaining row written by the
  flush after the loop, and the ledger entry.
\<close>

theorem C5_batch_boundary:
  assumes "1 < B"
    and "hibpEtl_count B e connectionString filename date = Inr (n, st)"
    and "os_Open e filename = Some (ls, scanErr)"
    and "length ls = 2 * B + 1"
    and "list_all (\<lambda>l. parse_count e l \<noteq> None) ls"
  shows "n = 2 * B + 1
    \<and> calls st =
        [(HIBP_TABLE_SCHEMA_count, []), (IMPORT_TABLE_SCHEMA, []),
         batch_count (take B (rows_count e ls)),
         batch_count (take B (drop B (rows_count e ls))),
         batch_count (drop (2 * B) (rows_count e ls)),
         ledger_call (final_state (errors st)) (the (time_Parse e DATE_FORMAT date))]
    \<and> map length [take B (rows_count e ls), take B (drop B (rows_count e ls)),
                   drop (2 * B) (rows_count e ls)] = [B, B, 1]"
proof -
  from assms(2) obtain time ls' where
    t: "time_Parse e DATE_FORMAT date = Some time"
    and o: "os_Open e filename = Some (ls', False)"
    and r: "(n, st) = hibpEtl_finish_count e time (hibpEtl_scan_count B e ls' loop_entry_count)"
    by (rule hibpEtl_count_Inr)
  from o assms(3) have ls': "ls' = ls" by simp
  let ?s = "hibpEtl_scan_count B e ls loop_entry_count"
  have st0: "count loop_entry_count = 0" "rowData loop_entry_count = []"
    by (simp_all add: loop_entry_count_def)
  have c0: "calls loop_entry_count = [(HIBP_TABLE_SCHEMA_count, []), (IMPORT_TABLE_SCHEMA, [])]"
    by (simp add: loop_entry_count_def)
  note s = scan_count_two_batches_and_one [OF assms(1,4,5) st0]
  have n: "n = fst (hibpEtl_finish_count e time ?s)"
    and st: "st = snd (hibpEtl_finish_count e time ?s)"
    using r by (simp_all add: ls' fst_def snd_def split: prod.splits) (metis fst_conv snd_conv)+
  have len: "length (rows_count e ls) = 2 * B + 1"
    using assms(4,5) by (simp add: rows_count_valid)
  have "n = 2 * B + 1"
    by (simp add: n finish_count_fields s)
  moreover have "calls st =
        [(HIBP_TABLE_SCHEMA_count, []), (IMPORT_TABLE_SCHEMA, []),
         batch_count (take B (rows_count e ls)),
         batch_count (take B (drop B (rows_count e ls))),
         batch_count (drop (2 * B) (rows_count e ls)),
         ledger_call (final_state (errors st)) (the (time_Parse e DATE_FORMAT date))]"
    by (simp add: st finish_count_fields s t c0)
  moreover have "map length [take B (rows_count e ls), take B (drop B (rows_count e ls)),
                   drop (2 * B) (rows_count e ls)] = [B, B, 1]"
    using len by simp
  ultimately show ?thesis by blast
qed

text \<open>Five accepted lines with batch size two: batches of two, two and one row.\<close>

theorem C5_batch_boundary_witness:
  "hibpEtl_count 2 sample_env ''db'' ''five.txt'' ''November 19 2020'' =
     Inr (5, \<lparr>calls =
            [(HIBP_TABLE_SCHEMA_count, []), (IMPORT_TABLE_SCHEMA, []),
             batch_count [HibpData ''aa'' 1, HibpData ''bb'' 2],
             batch_count [HibpData ''cc'' 3, HibpData ''dd'' 4],
             batch_count [HibpData ''ee'' 5],
             ledger_call ''done'' (Date 2020 11 19)],
            logs =
              [''File import time %s'', ''HIBP Processing file %s for %s'',
               ''processing %d...'', ''processing %d...''],
            count = 5, errors = 0, rowData = [HibpData ''ee'' 5]\<rparr>)
   \<and> map length
         [take 2 (rows_count sample_env [''aa:1'', ''bb:2'', ''cc:3'', ''dd:4'', ''ee:5'']),
          take 2 (drop 2 (rows_count sample_env [''aa:1'', ''bb:2'', ''cc:3'', ''dd:4'', ''ee:5''])),
          drop (2 * 2) (rows_count sample_env [''aa:1'', ''bb:2'', ''cc:3'', ''dd:4'', ''ee:5''])]
       = [2, 2, 1]"
proof -
  let ?ls = "[''aa:1'', ''bb:2'', ''cc:3'', ''dd:4'', ''ee:5'']"
  have opened: "os_Open sample_env ''five.txt'' = Some (?ls, False)"
    by (simp add: sample_env_def)
  have scan: "hibpEtl_scan_count 2 sample_env ?ls loop_entry_count =
     \<lparr>calls =
        [(HIBP_TABLE_SCHEMA_count, []), (IMPORT_TABLE_SCHEMA, []),
         batch_count [HibpData ''aa'' 1, HibpData ''bb'' 2],
         batch_count [HibpData ''cc'' 3, HibpData ''dd'' 4]],
      logs =
        [''File import time %s'', ''HIBP Processing file %s for %s'',
         ''processing %d...'', ''processing %d...''],
      count = 5, errors = 0, rowData = [HibpData ''ee'' 5]\<rparr>"
    by (simp add: line_defs run_defs sample_env_def loop_entry_count_def batch_count_def)
  have "hibpEtl_count 2 sample_env ''db'' ''five.txt'' ''November 19 2020''
        = Inr (hibpEtl_finish_count sample_env (Date 2020 11 19)
                 (hibpEtl_scan_count 2 sample_env ?ls loop_entry_count))"
    by (rule hibpEtl_count_run [OF _ _ _ _ _ opened])
       (simp_all add: sample_env_def run_defs)
  then have run: "hibpEtl_count 2 sample_env ''db'' ''five.txt'' ''November 19 2020'' =
     Inr (5, \<lparr>calls =
            [(HIBP_TABLE_SCHEMA_count, []), (IMPORT_TABLE_SCHEMA, []),
             batch_count [HibpData ''aa'' 1, HibpData ''bb'' 2],
             batch_count [HibpData ''cc'' 3, HibpData ''dd'' 4],
             batch_count [HibpData ''ee'' 5],
             ledger_call ''done'' (Date 2020 11 19)],
            logs =
              [''File import time %s'', ''HIBP Processing file %s for %s'',
               ''processing %d...'', ''processing %d...''],
            count = 5, errors = 0, rowData = [HibpData ''ee'' 5]\<rparr>)"
    unfolding scan
    by (simp add: run_defs sample_env_def batch_count_def ledger_call_def)
  have valid: "list_all (\<lambda>l. parse_count sample_env l \<noteq> None) ?ls"
    by (simp add: parse_count_def key_field_def value_field_def Atoi_def isDigit_def u8_def)
  have "(1::nat) < 2" "length ?ls = 2 * 2 + 1"
    by simp_all
  note c = C5_batch_boundary [OF this(1) run opened this(2) valid]
  show ?thesis
    by (rule conjI [OF run c [THEN conjunct2, THEN conjunct2]])
qed

text \<open>
  Claim C7. In every run of the count revision that returns, the ledger statement is
  executed exactly once, it is the last statement of the run, the statement just before it
  is the final flush of the remaining buffer, and its state argument is \<^verbatim>\<open>error\<close> when the
  error counter is positive and \<^verbatim>\<open>done\<close> otherwise. Whether the store then keeps the entry
  is the store's answer to that one statement.
\<close>

theorem C7_ledger_once_after_final_flush:
  assumes "hibpEtl_count B e connectionString filename date = Inr (n, st)"
  shows "length (filter (\<lambda>c. fst c = IMPORT_QUERY) (calls st)) = 1
    \<and> last (calls st)
        = ledger_call (if 0 < errors st then ''error'' else ''done'')
            (the (time_Parse e DATE_FORMAT date))
    \<and> last (butlast (calls st)) = batch_count (rowData st)"
proof -
  from assms obtain time ls where
    t: "time_Parse e DATE_FORMAT date = Some time"
    and r: "(n, st) = hibpEtl_finish_count e time (hibpEtl_scan_count B e ls loop_entry_count)"
    by (rule hibpEtl_count_Inr)
  let ?s = "hibpEtl_scan_count B e ls loop_entry_count"
  have st: "st = snd (hibpEtl_finish_count e time ?s)"
    using r by (metis snd_conv)
  have c: "calls st = calls ?s @ [batch_count (rowData ?s),
                                  ledger_call (final_state (errors st)) time]"
    and rd: "rowData st = rowData ?s"
    by (simp_all add: st finish_count_fields)
  have "filter (\<lambda>c. fst c = IMPORT_QUERY) (calls ?s) = []"
    by (simp add: scan_count_no_ledger loop_entry_count_no_ledger)
  then have "length (filter (\<lambda>c. fst c = IMPORT_QUERY) (calls st)) = 1"
    by (simp add: c batch_count_not_ledger ledger_call_def)
  moreover have "last (calls st)
        = ledger_call (if 0 < errors st then ''error'' else ''done'')
            (the (time_Parse e DATE_FORMAT date))"
    by (simp add: c t final_state_def)
  moreover have "last (butlast (calls st)) = batch_count (rowData st)"
    by (simp add: c rd butlast_append)
  ultimately show ?thesis by (intro conjI)
qed

text \<open>
  The file with the lines \<^verbatim>\<open>aaaa:5\<close>, \<^verbatim>\<open>badline\<close> and \<^verbatim>\<open>bbbb:3\<close>, batch size two: one
  rejected line and one rejected (empty) final flush, state \<^verbatim>\<open>error\<close>.
\<close>

theorem C7_ledger_once_after_final_flush_witness:
  "hibpEtl_count 2 sample_env ''db'' ''mixed.txt'' ''November 19 2020'' =
     Inr (2, \<lparr>calls =
            [(HIBP_TABLE_SCHEMA_count, []), (IMPORT_TABLE_SCHEMA, []),
             batch_count [HibpData ''aaaa'' 5, HibpData ''bbbb'' 3],
             batch_count [],
             ledger_call ''error'' (Date 2020 11 19)],
            logs =
              [''File import time %s'', ''HIBP Processing file %s for %s'',
               ''processing %d...'', ''Err: %v on %s'', ''%d Error(s) found''],
            count = 2, errors = 2, rowData = []\<rparr>)
   \<and> length (filter (\<lambda>c. fst c = IMPORT_QUERY)
         [(HIBP_TABLE_SCHEMA_count, []), (IMPORT_TABLE_SCHEMA, []),
          batch_count [HibpData ''aaaa'' 5, HibpData ''bbbb'' 3],
          batch_count [],
          ledger_call ''error'' (Date 2020 11 19)]) = 1"
proof -
  have run: "hibpEtl_count 2 sample_env ''db'' ''mixed.txt'' ''November 19 2020'' =
     Inr (2, \<lparr>calls =
            [(HIBP_TABLE_SCHEMA_count, []), (IMPORT_TABLE_SCHEMA, []),
             batch_count [HibpData ''aaaa'' 5, HibpData ''bbbb'' 3],
             batch_count [],
             ledger_call ''error'' (Date 2020 11 19)],
            logs =
              [''File import time %s'', ''HIBP Processing file %s for %s'',
               ''processing %d...'', ''Err: %v on %s'', ''%d Error(s) found''],
            count = 2, errors = 2, rowData = []\<rparr>)"
    by (simp add: run_defs line_defs sample_env_def batch_count_def ledger_call_def)
  note c = C7_ledger_once_after_final_flush [OF run]
  have "length (filter (\<lambda>c. fst c = IMPORT_QUERY)
         [(HIBP_TABLE_SCHEMA_count, []), (IMPORT_TABLE_SCHEMA, []),
          batch_count [HibpData ''aaaa'' 5, HibpData ''bbbb'' 3],
          batch_count [],
          ledger_call ''error'' (Date 2020 11 19)]) = 1"
    using c [THEN conjunct1] by (simp only: world.simps)
  with run show ?thesis by (rule conjI)
qed

text \<open>
  Claim C4 as stated fails: the parser does not ask for non-empty parts. The line \<^verbatim>\<open>:5\<close>
  splits into an empty key and \<^verbatim>\<open>5\<close>, and the count revision accepts it as a row with an
  empty identifier; the line \<^verbatim>\<open>ab:\<close> splits into \<^verbatim>\<open>ab\<close> and an empty value, and the
  identifier-only revision accepts it. Neither touches the error counter.
\<close>

theorem C4_counterexample:
  "SplitN '':5'' CHR '':'' 2 = ['''', ''5'']
   \<and> hibpEtl_line_count 2 sample_env '':5'' loop_entry_count
       = loop_entry_count\<lparr>count := 1, rowData := [HibpData '''' 5]\<rparr>
   \<and> SplitN ''ab:'' CHR '':'' 2 = [''ab'', '''']
   \<and> hibpEtl_line_ascii85 2 sample_env ''ab:'' loop_entry_ascii85
       = Inr (loop_entry_ascii85\<lparr>count := 1, rowData := [ascii85_Encode [byte 171]]\<rparr>)"
  by (simp add: line_defs sample_env_def loop_entry_count_def loop_entry_ascii85_def
      hibpEtl_line_ascii85_def fromHexChar_def ValidString_Encode)

text \<open>
  Claim C4, amended. A line is split at the first separator into a key part and a value
  part, either of which may be empty. A line without the separator is the only
  unparseable-line error: the error counter grows by one, nothing else changes, and the
  loop goes on. A line with the separator always reaches the field check of its revision
  (\<^verbatim>\<open>strconv.Atoi\<close> on the value, \<^verbatim>\<open>hex.DecodeString\<close> on the key), which alone decides
  between one more error and one more row.
\<close>

theorem C4_line_parser:
  "SplitN text CHR '':'' 2
     = (if CHR '':'' \<in> set text then [key_field text, value_field text] else [text])
   \<and> (if CHR '':'' \<in> set text
       then key_field text @ CHR '':'' # value_field text = text
            \<and> CHR '':'' \<notin> set (key_field text)
       else True)
   \<and> hibpEtl_line_count B e text st
     = (if CHR '':'' \<in> set text
        then (case Atoi (value_field text) of
                None \<Rightarrow> st\<lparr>errors := errors st + 1\<rparr>
              | Some k \<Rightarrow>
                  if (count st + 1) mod B = 0
                  then flush_count e
                         (st\<lparr>count := count st + 1,
                             rowData := rowData st
                               @ [HibpData (ToLower (unicode_ToLower e) (key_field text)) k]\<rparr>)
                  else st\<lparr>count := count st + 1,
                          rowData := rowData st
                            @ [HibpData (ToLower (unicode_ToLower e) (key_field text)) k]\<rparr>)
        else st\<lparr>errors := errors st + 1\<rparr>)
   \<and> hibpEtl_line_ascii85 B e text st'
     = (if CHR '':'' \<in> set text
        then (case hex_DecodeString (key_field text) of
                Inl err \<Rightarrow> Inr (st'\<lparr>errors := errors st' + 1\<rparr>)
              | Inr hash \<Rightarrow>
                  Inr (if (count st' + 1) mod B = 0
                       then flush_ascii85 e
                              (st'\<lparr>count := count st' + 1,
                                   rowData := rowData st' @ [ascii85_Encode hash]\<rparr>)
                       else st'\<lparr>count := count st' + 1,
                                rowData := rowData st' @ [ascii85_Encode hash]\<rparr>))
        else Inr (st'\<lparr>errors := errors st' + 1\<rparr>))"
proof (intro conjI)
  show "SplitN text CHR '':'' 2
     = (if CHR '':'' \<in> set text then [key_field text, value_field text] else [text])"
    by (simp add: SplitN_2 key_field_def value_field_def)
  show "if CHR '':'' \<in> set text
       then key_field text @ CHR '':'' # value_field text = text
            \<and> CHR '':'' \<notin> set (key_field text)
       else True"
    using split_at_first [of "text"] by simp
qed (simp_all add: hibpEtl_line_count_eq hibpEtl_line_ascii85_eq parse_count_def
      split: option.split)

text \<open>
  Claim C6. Either batch writer executes exactly one statement and returns one when the
  store rejects it, zero otherwise, whatever the number of rows. Over a whole run of the
  count revision that returns, the value returned is the number of accepted lines, and the
  error counter is the number of rejected lines plus the number of rejected statements
  among the batch writes (the last one being the flush after the loop): a failed batch
  counts once, is not sent again, and the lines after it are still read and written.
\<close>

theorem C6_batch_failure_counts_once:
  assumes "hibpEtl_count B e connectionString filename date = Inr (n, st)"
    and "os_Open e filename = Some (ls, scanErr)"
  shows "fst (hibpProcessRowDataBatch_count e rows w)
           = (if pool_Exec e (calls w) (batch_count rows) then 1 else 0)
    \<and> calls (snd (hibpProcessRowDataBatch_count e rows w)) = calls w @ [batch_count rows]
    \<and> fst (hibpProcessRowDataBatch_ascii85 e rows' w)
           = (if pool_Exec e (calls w) (batch_ascii85 rows') then 1 else 0)
    \<and> calls (snd (hibpProcessRowDataBatch_ascii85 e rows' w)) = calls w @ [batch_ascii85 rows']
    \<and> n = length (rows_count e ls)
    \<and> errors st
        = length (filter (\<lambda>l. parse_count e l = None) ls)
          + failures e [(HIBP_TABLE_SCHEMA_count, []), (IMPORT_TABLE_SCHEMA, [])]
              (butlast (drop 2 (calls st)))"
proof -
  from assms(1) obtain time ls' where
    o: "os_Open e filename = Some (ls', False)"
    and r: "(n, st) = hibpEtl_finish_count e time (hibpEtl_scan_count B e ls' loop_entry_count)"
    by (rule hibpEtl_count_Inr)
  from o assms(2) have ls': "ls' = ls" by simp
  let ?s = "hibpEtl_scan_count B e ls loop_entry_count"
  let ?h = "[(HIBP_TABLE_SCHEMA_count, []), (IMPORT_TABLE_SCHEMA, [])]"
  have n: "n = fst (hibpEtl_finish_count e time ?s)"
    and st: "st = snd (hibpEtl_finish_count e time ?s)"
    using r unfolding ls' by (metis fst_conv, metis snd_conv)
  have h: "calls loop_entry_count = ?h" "errors loop_entry_count = 0"
    "count loop_entry_count = 0"
    by (simp_all add: loop_entry_count_def)
  obtain new where new: "calls ?s = ?h @ new"
    "errors ?s = length (filter (\<lambda>l. parse_count e l = None) ls) + failures e ?h new"
    "count ?s = length (rows_count e ls)"
    using scan_count_accounting [of B e ls loop_entry_count] unfolding h by auto
  have c: "calls st = ?h @ new @ [batch_count (rowData ?s),
                                   ledger_call (final_state (errors st)) time]"
    by (simp add: st finish_count_fields new)
  then have "butlast (drop 2 (calls st)) = new @ [batch_count (rowData ?s)]"
    by (simp add: butlast_append)
  moreover have "errors st = errors ?s
      + (if pool_Exec e (calls ?s) (batch_count (rowData ?s)) then 1 else 0)"
    by (simp add: st finish_count_fields final_errors_count_def)
  ultimately have e: "errors st
        = length (filter (\<lambda>l. parse_count e l = None) ls)
          + failures e ?h (butlast (drop 2 (calls st)))"
    by (simp add: new failures_append)
  have "n = length (rows_count e ls)"
    by (simp add: n finish_count_fields new)
  with e show ?thesis
    by (simp add: hibpProcessRowDataBatch_count_eq hibpProcessRowDataBatch_ascii85_eq)
qed

text \<open>
  Three lines, batch size two, on the store that rejects statements with arguments: the
  batch of two rows fails, and the error counter is one rejected line plus one failed
  batch.
\<close>

theorem C6_batch_failure_counts_once_witness:
  "hibpEtl_count 2 rejecting_env ''db'' ''mixed.txt'' ''November 19 2020'' =
     Inr (2, \<lparr>calls =
            [(HIBP_TABLE_SCHEMA_count, []), (IMPORT_TABLE_SCHEMA, []),
             batch_count [HibpData ''aaaa'' 5, HibpData ''bbbb'' 3],
             batch_count [],
             ledger_call ''error'' (Date 2020 11 19)],
            logs =
              [''File import time %s'', ''HIBP Processing file %s for %s'',
               ''processing %d...'', ''Err: %v on %s'', ''%d Error(s) found'',
               ''Error writing to imports: %v''],
            count = 2, errors = 2, rowData = []\<rparr>)
   \<and> fst (hibpProcessRowDataBatch_count rejecting_env
            [HibpData ''aaaa'' 5, HibpData ''bbbb'' 3]
            \<lparr>calls = [], logs = []\<rparr>) = 1
   \<and> (2::nat) = length (filter (\<lambda>l. parse_count rejecting_env l = None)
                           [''aaaa:5'', ''badline'', ''bbbb:3''])
         + failures rejecting_env [(HIBP_TABLE_SCHEMA_count, []), (IMPORT_TABLE_SCHEMA, [])]
             [batch_count [HibpData ''aaaa'' 5, HibpData ''bbbb'' 3], batch_count []]"
proof -
  let ?ls = "[''aaaa:5'', ''badline'', ''bbbb:3'']"
  have opened: "os_Open rejecting_env ''mixed.txt'' = Some (?ls, False)"
    by (simp add: rejecting_env_def sample_env_def)
  have scan: "hibpEtl_scan_count 2 rejecting_env ?ls loop_entry_count =
     \<lparr>calls =
        [(HIBP_TABLE_SCHEMA_count, []), (IMPORT_TABLE_SCHEMA, []),
         batch_count [HibpData ''aaaa'' 5, HibpData ''bbbb'' 3]],
      logs =
        [''File import time %s'', ''HIBP Processing file %s for %s'',
         ''processing %d...'', ''Err: %v on %s''],
      count = 2, errors = 2, rowData = []\<rparr>"
    by (simp add: line_defs run_defs rejecting_env_def sample_env_def loop_entry_count_def
        batch_count_def)
  have "hibpEtl_count 2 rejecting_env ''db'' ''mixed.txt'' ''November 19 2020''
        = Inr (hibpEtl_finish_count rejecting_env (Date 2020 11 19)
                 (hibpEtl_scan_count 2 rejecting_env ?ls loop_entry_count))"
    by (rule hibpEtl_count_run [OF _ _ _ _ _ opened])
       (simp_all add: rejecting_env_def sample_env_def run_defs)
  then have run: "hibpEtl_count 2 rejecting_env ''db'' ''mixed.txt'' ''November 19 2020'' =
     Inr (2, \<lparr>calls =
            [(HIBP_TABLE_SCHEMA_count, []), (IMPORT_TABLE_SCHEMA, []),
             batch_count [HibpData ''aaaa'' 5, HibpData ''bbbb'' 3],
             batch_count [],
             ledger_call ''error'' (Date 2020 11 19)],
            logs =
              [''File import time %s'', ''HIBP Processing file %s for %s'',
               ''processing %d...'', ''Err: %v on %s'', ''%d Error(s) found'',
               ''Error writing to imports: %v''],
            count = 2, errors = 2, rowData = []\<rparr>)"
    unfolding scan
    by (simp add: run_defs rejecting_env_def sample_env_def batch_count_def ledger_call_def)
  note c = C6_batch_failure_counts_once [OF run opened,
      of "[HibpData ''aaaa'' 5, HibpData ''bbbb'' 3]" "\<lparr>calls = [], logs = []\<rparr>"]
  have w: "fst (hibpProcessRowDataBatch_count rejecting_env
            [HibpData ''aaaa'' 5, HibpData ''bbbb'' 3]
            \<lparr>calls = [], logs = []\<rparr>) = 1"
    using c [THEN conjunct1] by (simp add: rejecting_env_def batch_count_def)
  have a: "(2::nat) = length (filter (\<lambda>l. parse_count rejecting_env l = None) ?ls)
         + failures rejecting_env [(HIBP_TABLE_SCHEMA_count, []), (IMPORT_TABLE_SCHEMA, [])]
             [batch_count [HibpData ''aaaa'' 5, HibpData ''bbbb'' 3], batch_count []]"
  proof -
    let ?st = "\<lparr>calls =
            [(HIBP_TABLE_SCHEMA_count, []), (IMPORT_TABLE_SCHEMA, []),
             batch_count [HibpData ''aaaa'' 5, HibpData ''bbbb'' 3],
             batch_count [],
             ledger_call ''error'' (Date 2020 11 19)],
            logs =
              [''File import time %s'', ''HIBP Processing file %s for %s'',
               ''processing %d...'', ''Err: %v on %s'', ''%d Error(s) found'',
               ''Error writing to imports: %v''],
            count = 2, errors = 2, rowData = []\<rparr> :: hibpData locals"
    have bd: "butlast (drop 2 (calls ?st))
              = [batch_count [HibpData ''aaaa'' 5, HibpData ''bbbb'' 3], batch_count []]"
      by simp
    have er: "errors ?st = 2" by simp
    show ?thesis
      using c [THEN conjunct2, THEN conjunct2, THEN conjunct2, THEN conjunct2, THEN conjunct2]
      by (simp only: bd er)
  qed
  show ?thesis using run w a by (intro conjI)
qed

text \<open>
  Claim C8. Take any environment, and compare the store that rejects the ledger statement
  with the store that accepts it. The run ends the same way on both: with the same fatal
  condition, or with the same returned count and the same final state, except that the
  rejected write leaves the line \<^verbatim>\<open>Error writing to imports\<close> at the end of the log.
\<close>

theorem C8_ledger_failure_not_propagated:
  "hibpEtl_count B (ledger_rejected e) connectionString filename date
   = (case hibpEtl_count B (ledger_accepted e) connectionString filename date of
        Inl f \<Rightarrow> Inl f
      | Inr (n, st) \<Rightarrow> Inr (n, st\<lparr>logs := logs st @ [''Error writing to imports: %v'']\<rparr>))"
  by (simp add: hibpEtl_count_def Let_def prelude_ledger_env scan_count_ledger_env
      finish_count_ledger_env split: sum.split prod.split option.split)

end
